theory Spec2Isabelle
  imports Complex_Main "HOL-Library.Sublist" "HOL-Library.AList"
begin

text \<open>
  A shallow embedding of \<open>markov_engine.py\<close>. Naming: a leading underscore of a Python
  name is written \<open>u_\<close> (\<open>_getnode\<close> is \<open>u_getnode\<close>); the fields \<open>text\<close> and
  \<open>pos\<close> occur in two classes and carry the prefix \<open>w_\<close> for a word and \<open>n_\<close> for a
  neighbor; \<open>insert\<close>, \<open>select\<close> and \<open>update\<close> of the store carry the suffix \<open>_db\<close>.
\<close>

section \<open>Text filters (class MarkovFilters)\<close>

text \<open>
  The filters work on the characters of a text, one of which (U+201C) lies outside the 8-bit
  range of \<open>char\<close>. For the filters a Python string is therefore a list of code points,
  \<open>nat list\<close>; the characters of the patterns are written with \<open>of_char\<close>. \<open>None\<close> is
  passed through by both filters, hence the option type.
\<close>

text \<open>\<open>re.sub(r'(&amp;)', '', s)\<close>: the non-overlapping occurrences, leftmost first.\<close>

definition amp :: "nat list" where
  "amp = map of_char ''&amp;''"

fun sub_amp :: "nat list \<Rightarrow> nat list" where
  "sub_amp [] = []"
| "sub_amp (c # cs) =
     (if take 5 (c # cs) = amp then sub_amp (drop 4 cs) else c # sub_amp cs)"

text \<open>The character class of the second substitution of \<open>filter_input\<close>, in the order
  of the source: comma, colon, semicolon, apostrophe, grave accent, hyphen, underscore,
  U+201C, circumflex, quotation mark, the round and the curly brackets, slash, backslash,
  asterisk.\<close>

definition stripped_chars :: "nat list" where
  "stripped_chars =
     map of_char ('',:;'' @ [CHR 0x27, CHR 0x60] @ ''-_'') @ [0x201C]
     @ map of_char (''^'' @ [CHR 0x22] @ ''(){}/'' @ [CHR 0x5C] @ ''*'')"

definition sub_class :: "nat list \<Rightarrow> nat list" where
  "sub_class s = filter (\<lambda>c. c \<notin> set stripped_chars) s"

definition filter_input :: "nat list option \<Rightarrow> nat list option" where
  "filter_input text =
     (case text of
        None \<Rightarrow> None
      | Some filtered \<Rightarrow> Some (sub_class (sub_amp filtered)))"

text \<open>\<open>re.sub(r' ([.,?!%])', r'\1', s)\<close>: a space followed by one of the five marks is
  replaced by the mark; the scan goes on after the mark.\<close>

definition smooth_marks :: "nat list" where
  "smooth_marks = map of_char ''.,?!%''"

fun sub_space :: "nat list \<Rightarrow> nat list" where
  "sub_space [] = []"
| "sub_space [c] = [c]"
| "sub_space (c # d # cs) =
     (if c = of_char (CHR '' '') \<and> d \<in> set smooth_marks then d # sub_space cs
      else c # sub_space (d # cs))"

definition smooth_output :: "nat list option \<Rightarrow> nat list option" where
  "smooth_output text =
     (case text of
        None \<Rightarrow> None
      | Some smoothed \<Rightarrow> Some (sub_space smoothed))"

text \<open>The ASCII letters and digits, which are alphanumeric characters.\<close>

definition ascii_alnum :: "nat \<Rightarrow> bool" where
  "ascii_alnum c = ((48 \<le> c \<and> c \<le> 57) \<or> (65 \<le> c \<and> c \<le> 90) \<or> (97 \<le> c \<and> c \<le> 122))"

section \<open>Data model\<close>

text \<open>
  Modelled from the spec: \<open>nlp_common.PosEnum\<close> is not among the sources. The spec calls it
  a closed enumeration of the tagger's part-of-speech tags with a bucket \<open>OTHER\<close> for unknown
  tags and the sentinel \<open>EOS\<close>; the tags it names are the constructors below. The store
  writes \<open>pos.value\<close> and reads it back with \<open>PosEnum(...)\<close>; the model keeps the tag itself.
\<close>

datatype PosEnum = NOUN | VERB | ADJ | ADV | DET | OTHER | EOS

text \<open>The constants imported from \<open>ml_config\<close>, which is not among the sources, are the
  fields of a record that every operation takes as its first argument. The weights are
  floats in the source and rationals here: the arithmetic of the model is exact.\<close>

record ml_config =
  MARKOV_WINDOW_SIZE :: nat
  MARKOV_GENERATION_WEIGHT_COUNT :: rat
  MARKOV_GENERATION_WEIGHT_RATING :: rat
  MARKOV_GENERATE_SUBJECT_POS_PRIORITY :: "PosEnum list"

datatype exn = ValueError | IndexError | AttributeError | TypeError | OverflowError | OutOfRange | Unmodelled

subsection \<open>MarkovNeighbor\<close>

text \<open>\<open>values\<close> is the two-element list \<open>[count, rating]\<close>, here a pair.\<close>

record MarkovNeighbor =
  n_text :: string
  n_pos :: PosEnum
  n_values :: "int \<times> int"
  n_dist :: "int list"

text \<open>The stored form of a neighbor, \<open>[pos_code, values, dist]\<close>, and the dictionary from
  neighbor text to stored form. A Python dictionary keeps its keys in insertion order, and
  \<open>select_neighbors\<close> walks them in that order, so the dictionary is an association list;
  \<open>d[k] = v\<close> is \<open>AList.update k v d\<close> (replace in place, or append).\<close>

type_synonym n_row = "PosEnum \<times> (int \<times> int) \<times> int list"
type_synonym ndict = "(string \<times> n_row) list"

type_synonym Token = "string \<times> PosEnum"

definition neighbor_from_token :: "ml_config \<Rightarrow> Token \<Rightarrow> MarkovNeighbor" where
  \<comment> \<open>\<open>MarkovNeighbor.from_token\<close>\<close>
  "neighbor_from_token cfg token =
     \<lparr>n_text = fst token, n_pos = snd token, n_values = (0, 0),
      n_dist = replicate (MARKOV_WINDOW_SIZE cfg * 2 + 1) 0\<rparr>"

definition neighbor_to_db_format :: "MarkovNeighbor \<Rightarrow> string \<times> n_row" where
  \<comment> \<open>\<open>MarkovNeighbor.to_db_format\<close>\<close>
  "neighbor_to_db_format self = (n_text self, (n_pos self, n_values self, n_dist self))"

definition one_hot :: "int \<Rightarrow> nat \<Rightarrow> exn + int list" where
  \<comment> \<open>Modelled from the spec: \<open>nlp_common.one_hot\<close> is not among the sources. A vector of
     length \<open>n\<close>, zero except for a one at index \<open>i\<close>; it fails when \<open>i\<close> is not in
     \<open>[0, n)\<close>.\<close>
  "one_hot i n =
     (if 0 \<le> i \<and> i < int n then Inr ((replicate n 0)[nat i := 1]) else Inl OutOfRange)"

definition distance_one_hot :: "ml_config \<Rightarrow> int \<Rightarrow> exn + int list" where
  "distance_one_hot cfg d =
     one_hot (d + int (MARKOV_WINDOW_SIZE cfg)) (MARKOV_WINDOW_SIZE cfg * 2 + 1)"

subsection \<open>MarkovWord and its projection\<close>

text \<open>
  The trainer changes a word's neighbor dictionary in place, and the same dictionary object
  is held by the trie node, by the words read from that node and by the trainer's cache.
  Dictionaries therefore live in a store of their own, \<open>nat \<Rightarrow> ndict\<close>, and a word holds
  the address of its dictionary.
\<close>

record MarkovWord =
  w_text :: string
  w_pos :: PosEnum
  neighbors :: nat

record MarkovWordProjection =
  magnitudes :: "rat list list"
  distances :: "rat list list"
  keys :: "string list"
  pos :: "PosEnum list"

definition get_neighbor :: "ndict \<Rightarrow> string \<Rightarrow> MarkovNeighbor option" where
  "get_neighbor d word =
     (case map_of d word of
        Some (p, v, ds) \<Rightarrow> Some \<lparr>n_text = word, n_pos = p, n_values = v, n_dist = ds\<rparr>
      | None \<Rightarrow> None)"

definition select_neighbors :: "(nat \<Rightarrow> ndict) \<Rightarrow> MarkovWord \<Rightarrow> PosEnum \<Rightarrow> MarkovNeighbor list" where
  "select_neighbors dicts self p =
     (let d = dicts (neighbors self)
      in filter (\<lambda>neighbor. n_pos neighbor = p)
           (List.map_filter (\<lambda>key. get_neighbor d key) (map fst d)))"

text \<open>The inner loop of \<open>project\<close>: one row of the distance matrix, from a row of zeros.\<close>

definition project_dist :: "ml_config \<Rightarrow> int \<Rightarrow> nat \<Rightarrow> int list \<Rightarrow> rat list" where
  "project_dist cfg idx_in_sentence sentence_length ds =
     foldl (\<lambda>row (dist_idx, dist_value).
              let dist_space_index = (int dist_idx - int (MARKOV_WINDOW_SIZE cfg)) + idx_in_sentence
              in if \<not> (dist_space_index \<ge> 0 \<and> dist_space_index < int sentence_length) then row
                 else row[nat dist_space_index := of_int dist_value])
       (replicate sentence_length 0) (enumerate 0 ds)"

definition neighbor_magnitude :: "ml_config \<Rightarrow> MarkovNeighbor \<Rightarrow> rat" where
  "neighbor_magnitude cfg neighbor =
     of_int (fst (n_values neighbor)) * MARKOV_GENERATION_WEIGHT_COUNT cfg
     + of_int (snd (n_values neighbor)) * MARKOV_GENERATION_WEIGHT_RATING cfg"

definition project ::
  "ml_config \<Rightarrow> (nat \<Rightarrow> ndict) \<Rightarrow> MarkovWord \<Rightarrow> int \<Rightarrow> nat \<Rightarrow> PosEnum \<Rightarrow> MarkovWordProjection" where
  "project cfg dicts self idx_in_sentence sentence_length p =
     (let ns = select_neighbors dicts self p
      in \<lparr>magnitudes = map (\<lambda>neighbor. [neighbor_magnitude cfg neighbor]) ns,
          distances = map (\<lambda>neighbor. project_dist cfg idx_in_sentence sentence_length (n_dist neighbor)) ns,
          keys = map n_text ns,
          pos = map n_pos ns\<rparr>)"

section \<open>The trie store (class MarkovTrieDb)\<close>

text \<open>\<open>str.lower\<close> of one character, on the code points below 256: the ASCII capitals and
  the capitals of the Latin-1 block (U+00C0 to U+00DE without the multiplication sign).\<close>

definition lower :: "char \<Rightarrow> char" where
  "lower c =
     (let n = (of_char c :: nat)
      in if (65 \<le> n \<and> n \<le> 90) \<or> (192 \<le> n \<and> n \<le> 222 \<and> n \<noteq> 215) then char_of (n + 32) else c)"

text \<open>A node is a dictionary from lowercased characters to child nodes that may also hold
  the two payload keys: \<open>_W\<close> with the word's text and tag, and \<open>_N\<close> with the neighbor
  dictionary (here its address). \<open>_insert\<close> and \<open>_update\<close> write both keys together.\<close>

datatype node = Node (payload: "(string \<times> PosEnum \<times> nat) option") (children: "(char \<times> node) list")

record MarkovTrieDb =
  u_trie :: node
  heap :: "nat \<Rightarrow> ndict"
  fresh :: nat

definition empty_db :: MarkovTrieDb where
  \<comment> \<open>\<open>MarkovTrieDb()\<close>, before any dictionary has been created\<close>
  "empty_db = \<lparr>u_trie = Node None [], heap = (\<lambda>_. []), fresh = 0\<rparr>"

fun u_getnode_loop :: "node \<Rightarrow> string \<Rightarrow> node option" where
  "u_getnode_loop nd [] = Some nd"
| "u_getnode_loop nd (c # cs) =
     (case map_of (children nd) (lower c) of
        None \<Rightarrow> None
      | Some nd' \<Rightarrow> u_getnode_loop nd' cs)"

definition u_getnode :: "node \<Rightarrow> string \<Rightarrow> node option" where
  "u_getnode trie word = (if length word = 0 then None else u_getnode_loop trie word)"

definition u_select :: "node \<Rightarrow> string \<Rightarrow> node option" where
  "u_select trie word =
     (case u_getnode trie word of
        None \<Rightarrow> None
      | Some nd \<Rightarrow> if payload nd \<noteq> None then Some nd else None)"

definition word_from_db_format :: "node \<Rightarrow> MarkovWord option" where
  \<comment> \<open>\<open>MarkovWord.from_db_format(row) if row is not None else None\<close>, for a row with payload\<close>
  "word_from_db_format row =
     (case payload row of
        Some (t, p, ns) \<Rightarrow> Some \<lparr>w_text = t, w_pos = p, neighbors = ns\<rparr>
      | None \<Rightarrow> None)"

definition select_db :: "MarkovTrieDb \<Rightarrow> string \<Rightarrow> MarkovWord option" where
  "select_db db word =
     (case u_select (u_trie db) word of
        None \<Rightarrow> None
      | Some row \<Rightarrow> word_from_db_format row)"

text \<open>The loop of \<open>_insert\<close> followed by the two payload writes: the trie with the node at
  the end of the lowercased path rewritten, missing nodes created on the way.\<close>

fun u_insert_loop :: "node \<Rightarrow> string \<Rightarrow> string \<times> PosEnum \<times> nat \<Rightarrow> node" where
  "u_insert_loop nd [] pl = Node (Some pl) (children nd)"
| "u_insert_loop nd (c # cs) pl =
     (case map_of (children nd) (lower c) of
        Some nd' \<Rightarrow> Node (payload nd) (AList.update (lower c) (u_insert_loop nd' cs pl) (children nd))
      | None \<Rightarrow> Node (payload nd) (AList.update (lower c) (u_insert_loop (Node None []) cs pl) (children nd)))"

text \<open>\<open>_insert\<close> gives back the node it wrote: the node at the end of the path in the new
  trie.\<close>

definition u_insert :: "node \<Rightarrow> string \<Rightarrow> PosEnum \<Rightarrow> nat \<Rightarrow> node \<times> node option" where
  "u_insert trie word p ns =
     (let trie' = u_insert_loop trie word (word, p, ns)
      in (trie', u_getnode_loop trie' word))"

definition insert_db :: "MarkovTrieDb \<Rightarrow> MarkovWord \<Rightarrow> MarkovTrieDb \<times> MarkovWord option" where
  "insert_db db word =
     (case u_insert (u_trie db) (w_text word) (w_pos word) (neighbors word) of
        (trie', row) \<Rightarrow>
          (db\<lparr>u_trie := trie'\<rparr>, case row of None \<Rightarrow> None | Some r \<Rightarrow> word_from_db_format r))"

text \<open>\<open>_update\<close> writes the payload of the node that \<open>_select\<close> found. The path to that node
  exists, so rewriting it along the path creates nothing.\<close>

definition u_update :: "node \<Rightarrow> string \<Rightarrow> PosEnum \<Rightarrow> nat \<Rightarrow> node \<times> node option" where
  "u_update trie word p ns =
     (case u_select trie word of
        None \<Rightarrow> (trie, None)
      | Some nd \<Rightarrow>
          (let trie' = u_insert_loop trie word (word, p, ns)
           in (trie', u_getnode_loop trie' word)))"

definition update_db :: "MarkovTrieDb \<Rightarrow> MarkovWord \<Rightarrow> MarkovTrieDb \<times> MarkovWord option" where
  "update_db db word =
     (case u_update (u_trie db) (w_text word) (w_pos word) (neighbors word) of
        (trie', nd) \<Rightarrow>
          (db\<lparr>u_trie := trie'\<rparr>, case nd of None \<Rightarrow> None | Some r \<Rightarrow> word_from_db_format r))"

text \<open>Every payload of a trie, the root's first.\<close>

fun payloads :: "node \<Rightarrow> (string \<times> PosEnum \<times> nat) list" where
  "payloads (Node pl ch) =
     (case pl of None \<Rightarrow> [] | Some x \<Rightarrow> [x]) @ concat (map (\<lambda>kv. payloads (snd kv)) ch)"

section \<open>The generator (class MarkovGenerator)\<close>

text \<open>
  The generation board \<open>sentence_generations\<close> is a list of sentences, each a list of
  slots that hold \<open>None\<close> or a word. \<open>generate\<close> is modelled for a generator that has just
  been constructed, where \<open>sentence_generations\<close> and \<open>sentence_structures\<close> are empty.
\<close>

type_synonym board = "MarkovWord option list list"

subsection \<open>Splitting, sorting, assigning\<close>

fun u_split_sentences_loop :: "PosEnum list \<Rightarrow> nat \<Rightarrow> (nat \<times> PosEnum) list \<Rightarrow> PosEnum list list" where
  "u_split_sentences_loop structure start_index [] = []"
| "u_split_sentences_loop structure start_index ((pos_idx, p) # rest) =
     (if p = EOS
      then take (pos_idx - start_index) (drop start_index structure)
           # u_split_sentences_loop structure (pos_idx + 1) rest
      else u_split_sentences_loop structure start_index rest)"

definition u_split_sentences :: "PosEnum list \<Rightarrow> PosEnum list list \<times> board" where
  \<comment> \<open>the new \<open>sentence_structures\<close> and \<open>sentence_generations\<close>\<close>
  "u_split_sentences structure =
     (let sentence_structures = u_split_sentences_loop structure 0 (enumerate 0 structure)
      in (sentence_structures, map (\<lambda>sentence. replicate (length sentence) None) sentence_structures))"

definition u_sort_subjects :: "ml_config \<Rightarrow> MarkovWord list \<Rightarrow> MarkovWord list" where
  "u_sort_subjects cfg subjects =
     concat (map (\<lambda>subject_priority. filter (\<lambda>subject. w_pos subject = subject_priority) subjects)
               (MARKOV_GENERATE_SUBJECT_POS_PRIORITY cfg))"

text \<open>The two inner loops of \<open>_assign_subjects\<close> over one sentence; \<open>find\<close> is the loop over
  the subjects with its \<open>break\<close>. The state is the sentence's slots and its entry of
  \<open>sentences_assigned\<close>, which is \<open>None\<close> or \<open>True\<close>.\<close>

fun assign_words ::
  "MarkovWord list \<Rightarrow> (nat \<times> PosEnum) list \<Rightarrow> MarkovWord option list \<times> bool option
     \<Rightarrow> MarkovWord option list \<times> bool option" where
  "assign_words subjects [] st = st"
| "assign_words subjects ((word_idx, p) # rest) (generates, assigned) =
     (case find (\<lambda>subject. w_pos subject = p) subjects of
        Some subject \<Rightarrow> assign_words subjects rest (generates[word_idx := Some subject], Some True)
      | None \<Rightarrow> assign_words subjects rest (generates, assigned))"

fun assign_sentences ::
  "MarkovWord list \<Rightarrow> (nat \<times> PosEnum list) list \<Rightarrow> board \<times> bool option list
     \<Rightarrow> board \<times> bool option list" where
  "assign_sentences subjects [] st = st"
| "assign_sentences subjects ((sentence_idx, sentence) # rest) (generations, sentences_assigned) =
     (case assign_words subjects (enumerate 0 sentence)
             (generations ! sentence_idx, sentences_assigned ! sentence_idx) of
        (generates, assigned) \<Rightarrow>
          assign_sentences subjects rest
            (generations[sentence_idx := generates], sentences_assigned[sentence_idx := assigned]))"

text \<open>The closing check looks for an entry that is \<open>False\<close>.\<close>

definition u_assign_subjects ::
  "MarkovWord list \<Rightarrow> PosEnum list list \<Rightarrow> board \<Rightarrow> board \<times> bool" where
  "u_assign_subjects subjects sentence_structures sentence_generations =
     (case assign_sentences subjects (enumerate 0 sentence_structures)
             (sentence_generations, replicate (length sentence_structures) None) of
        (generations, sentences_assigned) \<Rightarrow>
          (generations, \<not> (\<exists>sentence \<in> set sentences_assigned. sentence = Some False)))"

definition u_work_remaining :: "board \<Rightarrow> nat" where
  "u_work_remaining sentence_generations =
     sum_list (map (\<lambda>sentence. length (filter (\<lambda>word. word = None) sentence)) sentence_generations)"

subsection \<open>Projection collection and sampling\<close>

text \<open>The collection of the projections of several anchors. Its matrices are \<open>None\<close> when
  there is no projection at all; they are read only when the collection has a key, so \<open>[]\<close>
  stands for \<open>None\<close>.\<close>

definition concat_collection :: "MarkovWordProjection list \<Rightarrow> MarkovWordProjection" where
  "concat_collection projections =
     \<lparr>magnitudes = concat (map magnitudes projections),
      distances = concat (map distances projections),
      keys = concat (map keys projections),
      pos = concat (map pos projections)\<rparr>"

text \<open>NumPy division: a zero divisor gives \<open>nan\<close> or an infinity, here \<open>None\<close>.\<close>

definition np_divide :: "rat \<Rightarrow> rat \<Rightarrow> rat option" where
  "np_divide x s = (if s = 0 then None else Some (x / s))"

definition np_sum_axis0 :: "rat list list \<Rightarrow> rat list" where
  "np_sum_axis0 m = (case m of [] \<Rightarrow> [] | row # rows \<Rightarrow> foldl (\<lambda>acc r. map2 (+) acc r) row rows)"

text \<open>\<open>distances * magnitudes\<close> multiplies row \<open>n\<close> of the distances by the single entry of
  row \<open>n\<close> of the magnitudes.\<close>

definition probability_matrix :: "MarkovWordProjection \<Rightarrow> rat option list list" where
  "probability_matrix self =
     (let distance_magnitudes =
            map2 (\<lambda>row m. (case m of [v] \<Rightarrow> map (\<lambda>x. x * v) row | _ \<Rightarrow> map2 (\<lambda>x y. x * y) row m))
              (distances self) (magnitudes self);
          column_sums = np_sum_axis0 distance_magnitudes
      in map (\<lambda>row. map2 np_divide row column_sums) distance_magnitudes)"

definition column :: "'a list list \<Rightarrow> nat \<Rightarrow> exn + 'a list" where
  \<comment> \<open>\<open>m[:, i]\<close>\<close>
  "column m i = (if \<forall>row \<in> set m. i < length row then Inr (map (\<lambda>row. row ! i) m) else Inl IndexError)"

text \<open>
  \<open>np.random.choice(choices, p=p_values)\<close> is a parameter of the generator: a function of
  the number of draws made so far (the state of the generator), the choices and the
  probabilities, that gives the chosen element or raises.
\<close>

type_synonym sampler = "nat \<Rightarrow> nat list \<Rightarrow> rat option list \<Rightarrow> exn + nat"

text \<open>NumPy's sampler in exact arithmetic, for a given stream of uniform draws from
  \<open>[0, 1)\<close>: it rejects probabilities that are not numbers, are negative or do not sum to
  one, and picks the first index whose cumulative probability exceeds the draw.\<close>

fun cumsum :: "rat \<Rightarrow> rat list \<Rightarrow> rat list" where
  "cumsum acc [] = []"
| "cumsum acc (x # xs) = (acc + x) # cumsum (acc + x) xs"

definition np_random_choice :: "(nat \<Rightarrow> rat) \<Rightarrow> sampler" where
  "np_random_choice draws calls choices p_values =
     (if length p_values \<noteq> length choices \<or> choices = [] then Inl ValueError
      else if None \<in> set p_values then Inl ValueError
      else let p = map the p_values
           in if \<exists>x \<in> set p. x < 0 then Inl ValueError
              else if sum_list p \<noteq> 1 then Inl ValueError
              else let idx = length (filter (\<lambda>c. c \<le> draws calls) (cumsum 0 p))
                   in if idx < length choices then Inr (choices ! idx) else Inl IndexError)"

subsection \<open>The fill loop\<close>

text \<open>One walk over a sentence: the pairs are the slots with their indices, in the order
  of the walk. The result is \<open>blank_idx\<close> and \<open>project_idx\<close> after the walk.\<close>

fun sweep :: "ml_config \<Rightarrow> (nat \<times> MarkovWord option) list \<Rightarrow> nat option \<Rightarrow> nat option \<times> nat list" where
  "sweep cfg [] blank_idx = (blank_idx, [])"
| "sweep cfg ((word_idx, word) # rest) blank_idx =
     (if word = None then sweep cfg rest (Some word_idx)
      else case blank_idx of
             None \<Rightarrow> sweep cfg rest blank_idx
           | Some b \<Rightarrow>
               if \<bar>int b - int word_idx\<bar> \<le> int (MARKOV_WINDOW_SIZE cfg) then (blank_idx, [word_idx])
               else sweep cfg rest blank_idx)"

text \<open>The projections of the anchors; an anchor slot that is out of range or empty raises.\<close>

fun project_anchors ::
  "ml_config \<Rightarrow> (nat \<Rightarrow> ndict) \<Rightarrow> MarkovWord option list \<Rightarrow> PosEnum \<Rightarrow> nat list
     \<Rightarrow> exn + MarkovWordProjection list" where
  "project_anchors cfg dicts sentence blank_pos [] = Inr []"
| "project_anchors cfg dicts sentence blank_pos (word_idx # rest) =
     (if \<not> word_idx < length sentence then Inl IndexError
      else case sentence ! word_idx of
             None \<Rightarrow> Inl AttributeError
           | Some projecting_word \<Rightarrow>
               (case project_anchors cfg dicts sentence blank_pos rest of
                  Inl e \<Rightarrow> Inl e
                | Inr projections \<Rightarrow>
                    Inr (project cfg dicts projecting_word (int word_idx) (length sentence) blank_pos
                         # projections)))"

text \<open>\<open>handle_projections\<close>, on the slots of sentence \<open>sentence_idx\<close> and the number of draws
  made so far.\<close>

definition handle_projections ::
  "ml_config \<Rightarrow> sampler \<Rightarrow> MarkovTrieDb \<Rightarrow> PosEnum list list \<Rightarrow> nat
     \<Rightarrow> MarkovWord option list \<times> nat \<Rightarrow> nat option \<times> nat list
     \<Rightarrow> exn + MarkovWord option list \<times> nat" where
  "handle_projections cfg choice db sentence_structures sentence_idx st found =
     (case (st, found) of ((sentence, calls), (blank_idx, project_idx)) \<Rightarrow>
        (case blank_idx of
           None \<Rightarrow> Inr st
         | Some b \<Rightarrow>
             if \<not> length project_idx > 0 then Inr st
             else if \<not> (sentence_idx < length sentence_structures
                         \<and> b < length (sentence_structures ! sentence_idx)) then Inl IndexError
             else
               (case project_anchors cfg (heap db) sentence
                       (sentence_structures ! sentence_idx ! b) project_idx of
                  Inl e \<Rightarrow> Inl e
                | Inr projections \<Rightarrow>
                    (let projection_collection = concat_collection projections
                     in if length (keys projection_collection) = 0 then Inr st
                        else
                          (case column (probability_matrix projection_collection) b of
                             Inl e \<Rightarrow> Inl e
                           | Inr p_values \<Rightarrow>
                               (case choice calls [0..<length (keys projection_collection)] p_values of
                                  Inl e \<Rightarrow> Inl e
                                | Inr word_choice_idx \<Rightarrow>
                                    if \<not> word_choice_idx < length (keys projection_collection)
                                    then Inl IndexError
                                    else if \<not> b < length sentence then Inl IndexError
                                    else Inr (sentence[b := select_db db (keys projection_collection ! word_choice_idx)],
                                              calls + 1)))))))"

text \<open>The body of the loop over the sentences: the walk from the left, then, on the slots
  as they are by then, the walk from the right.\<close>

definition sentence_pass ::
  "ml_config \<Rightarrow> sampler \<Rightarrow> MarkovTrieDb \<Rightarrow> PosEnum list list \<Rightarrow> nat
     \<Rightarrow> MarkovWord option list \<times> nat \<Rightarrow> exn + MarkovWord option list \<times> nat" where
  "sentence_pass cfg choice db sentence_structures sentence_idx st =
     (case handle_projections cfg choice db sentence_structures sentence_idx st
             (sweep cfg (enumerate 0 (fst st)) None) of
        Inl e \<Rightarrow> Inl e
      | Inr st' \<Rightarrow>
          handle_projections cfg choice db sentence_structures sentence_idx st'
            (sweep cfg (rev (enumerate 0 (fst st'))) None))"

fun sentences_loop ::
  "ml_config \<Rightarrow> sampler \<Rightarrow> MarkovTrieDb \<Rightarrow> PosEnum list list \<Rightarrow> board \<times> nat \<Rightarrow> nat list
     \<Rightarrow> exn + board \<times> nat" where
  "sentences_loop cfg choice db sentence_structures st [] = Inr st"
| "sentences_loop cfg choice db sentence_structures (generations, calls) (sentence_idx # rest) =
     (case sentence_pass cfg choice db sentence_structures sentence_idx
             (generations ! sentence_idx, calls) of
        Inl e \<Rightarrow> Inl e
      | Inr (sentence, calls') \<Rightarrow>
          sentences_loop cfg choice db sentence_structures
            (generations[sentence_idx := sentence], calls') rest)"

text \<open>The blank slots of one sentence. A pass over the sentences never adds one, which is
  what makes the loop of \<open>_generate_words\<close> terminate.\<close>

definition blanks :: "MarkovWord option list \<Rightarrow> nat" where
  "blanks sentence = length (filter (\<lambda>word. word = None) sentence)"

lemma work_blanks: "u_work_remaining b = sum_list (map blanks b)"
  by (simp add: u_work_remaining_def blanks_def[abs_def])

lemma sweep_blank:
  "sweep cfg ps b0 = (Some b, proj) \<Longrightarrow> (\<forall>(i, w) \<in> set ps. w = None \<longrightarrow> Q i)
     \<Longrightarrow> (\<forall>b'. b0 = Some b' \<longrightarrow> Q b') \<Longrightarrow> Q b"
proof (induction cfg ps b0 rule: sweep.induct)
  case (1 cfg blank_idx)
  then show ?case by simp
next
  case (2 cfg word_idx word rest blank_idx)
  then show ?case
    by (auto split: if_splits option.splits)
qed

lemma sweep_enumerate_blank:
  assumes "sweep cfg (enumerate 0 s) None = (Some b, proj) \<or> sweep cfg (rev (enumerate 0 s)) None = (Some b, proj)"
  shows "b < length s \<and> s ! b = None"
proof -
  have "\<forall>(i, w) \<in> set (enumerate 0 s). w = None \<longrightarrow> (i < length s \<and> s ! i = None)"
    by (auto simp: in_set_enumerate_eq)
  moreover have "\<forall>(i, w) \<in> set (rev (enumerate 0 s)). w = None \<longrightarrow> (i < length s \<and> s ! i = None)"
    by (auto simp: in_set_enumerate_eq)
  ultimately show ?thesis
    using assms sweep_blank[where Q = "\<lambda>i. i < length s \<and> s ! i = None" and ?b0.0 = None]
    by blast
qed

lemma blanks_update: "b < length s \<Longrightarrow> s ! b = None \<Longrightarrow> blanks (s[b := w]) \<le> blanks s"
proof (induction s arbitrary: b)
  case Nil
  then show ?case by simp
next
  case (Cons a s)
  then show ?case by (cases b) (auto simp: blanks_def)
qed

lemma handle_projections_blanks:
  assumes "handle_projections cfg choice db structs si (s, calls) (blank, proj) = Inr (s', calls')"
    and "\<forall>b. blank = Some b \<longrightarrow> b < length s \<and> s ! b = None"
  shows "blanks s' \<le> blanks s \<and> length s' = length s"
  using assms
  by (auto simp: handle_projections_def Let_def blanks_update
           split: option.splits if_splits sum.splits)

lemma sentence_pass_blanks:
  assumes "sentence_pass cfg choice db structs si (s, calls) = Inr (s', calls')"
  shows "blanks s' \<le> blanks s \<and> length s' = length s"
proof -
  obtain s1 c1 where h1: "handle_projections cfg choice db structs si (s, calls)
             (sweep cfg (enumerate 0 s) None) = Inr (s1, c1)"
    and h2: "handle_projections cfg choice db structs si (s1, c1)
             (sweep cfg (rev (enumerate 0 s1)) None) = Inr (s', calls')"
    using assms by (auto simp: sentence_pass_def split: sum.splits)
  obtain bl pr where sw1: "sweep cfg (enumerate 0 s) None = (bl, pr)" by (cases "sweep cfg (enumerate 0 s) None")
  obtain bl2 pr2 where sw2: "sweep cfg (rev (enumerate 0 s1)) None = (bl2, pr2)"
    by (cases "sweep cfg (rev (enumerate 0 s1)) None")
  have a: "blanks s1 \<le> blanks s \<and> length s1 = length s"
    using handle_projections_blanks[OF h1[unfolded sw1]] sweep_enumerate_blank sw1 by blast
  have b: "blanks s' \<le> blanks s1 \<and> length s' = length s1"
    using handle_projections_blanks[OF h2[unfolded sw2]] sweep_enumerate_blank sw2 by blast
  from a b show ?thesis by simp
qed

lemma work_update:
  "(i < length g \<Longrightarrow> blanks s \<le> blanks (g ! i)) \<Longrightarrow> u_work_remaining (g[i := s]) \<le> u_work_remaining g"
proof (induction g arbitrary: i)
  case Nil
  then show ?case by simp
next
  case (Cons a g)
  then show ?case by (cases i) (auto simp: work_blanks)
qed

lemma sentences_loop_work:
  "sentences_loop cfg choice db structs st idxs = Inr st' \<Longrightarrow>
     u_work_remaining (fst st') \<le> u_work_remaining (fst st) \<and> length (fst st') = length (fst st)"
proof (induction cfg choice db structs st idxs rule: sentences_loop.induct)
  case (1 cfg choice db sentence_structures st)
  then show ?case by simp
next
  case (2 cfg choice db sentence_structures generations calls sentence_idx rest)
  from "2.prems" obtain s c where
    sp: "sentence_pass cfg choice db sentence_structures sentence_idx (generations ! sentence_idx, calls) = Inr (s, c)"
    and rest: "sentences_loop cfg choice db sentence_structures (generations[sentence_idx := s], c) rest = Inr st'"
    by (auto split: sum.splits)
  have "u_work_remaining (generations[sentence_idx := s]) \<le> u_work_remaining generations"
    using sentence_pass_blanks[OF sp] by (intro work_update) simp
  moreover have "u_work_remaining (fst st') \<le> u_work_remaining (generations[sentence_idx := s])
      \<and> length (fst st') = length (generations[sentence_idx := s])"
    using "2.IH"[OF sp refl rest] by simp
  ultimately show ?case by simp
qed

function u_generate_words_loop ::
  "ml_config \<Rightarrow> sampler \<Rightarrow> MarkovTrieDb \<Rightarrow> PosEnum list list \<Rightarrow> board \<times> nat \<Rightarrow> nat \<Rightarrow> nat
     \<Rightarrow> (exn + bool \<times> board) \<times> nat" where
  "u_generate_words_loop cfg choice db sentence_structures st old_work_left passes =
     (case sentences_loop cfg choice db sentence_structures st [0..<length (fst st)] of
        Inl e \<Rightarrow> (Inl e, passes + 1)
      | Inr st' \<Rightarrow>
          (let new_work_left = u_work_remaining (fst st')
           in if old_work_left = new_work_left then (Inr (False, fst st'), passes + 1)
              else if new_work_left = 0 then (Inr (True, fst st'), passes + 1)
              else u_generate_words_loop cfg choice db sentence_structures st' new_work_left (passes + 1)))"
  by pat_completeness auto
termination
proof (relation "measure (\<lambda>(cfg, choice, db, structs, st, old_work_left, passes).
          2 * u_work_remaining (fst st) + (if old_work_left = u_work_remaining (fst st) then 0 else 1))")
  show "wf (measure (\<lambda>(cfg, choice, db, structs, st, old_work_left, passes).
          2 * u_work_remaining (fst st) + (if old_work_left = u_work_remaining (fst st) then 0 else 1)))"
    by simp
next
  fix cfg :: ml_config and choice :: sampler and db :: MarkovTrieDb and sentence_structures :: "PosEnum list list"
    and st :: "board \<times> nat" and old_work_left passes :: nat and st' :: "board \<times> nat" and new_work_left :: nat
  assume a: "sentences_loop cfg choice db sentence_structures st [0..<length (fst st)] = Inr st'"
    and b: "new_work_left = u_work_remaining (fst st')"
    and c: "old_work_left \<noteq> new_work_left" and d: "new_work_left \<noteq> 0"
  have "u_work_remaining (fst st') \<le> u_work_remaining (fst st)"
    using sentences_loop_work[OF a] by simp
  then show "((cfg, choice, db, sentence_structures, st', new_work_left, passes + 1),
              (cfg, choice, db, sentence_structures, st, old_work_left, passes))
      \<in> measure (\<lambda>(cfg, choice, db, structs, st, old_work_left, passes).
          2 * u_work_remaining (fst st) + (if old_work_left = u_work_remaining (fst st) then 0 else 1))"
    using b c by auto
qed


declare u_generate_words_loop.simps [simp del]

text \<open>\<open>_generate_words\<close>: the first component is what the call does (it raises, or it
  returns \<open>False\<close> or \<open>True\<close>, with the board as it then is), the second is the number of
  passes of the \<open>while\<close> loop it made, which the source does not keep.\<close>

definition u_generate_words ::
  "ml_config \<Rightarrow> sampler \<Rightarrow> MarkovTrieDb \<Rightarrow> PosEnum list list \<Rightarrow> board
     \<Rightarrow> (exn + bool \<times> board) \<times> nat" where
  "u_generate_words cfg choice db sentence_structures sentence_generations =
     u_generate_words_loop cfg choice db sentence_structures (sentence_generations, 0)
       (u_work_remaining sentence_generations) 0"

text \<open>The board after the first three phases of \<open>generate\<close>, with the result of
  \<open>_assign_subjects\<close>.\<close>

definition assigned_board :: "ml_config \<Rightarrow> PosEnum list \<Rightarrow> MarkovWord list \<Rightarrow> board \<times> bool" where
  "assigned_board cfg structure subjects =
     (case u_split_sentences structure of
        (sentence_structures, sentence_generations) \<Rightarrow>
          u_assign_subjects (u_sort_subjects cfg subjects) sentence_structures sentence_generations)"

text \<open>\<open>generate\<close> raises (\<open>Inl\<close>), returns \<open>None\<close>, or returns the board.\<close>

definition generate ::
  "ml_config \<Rightarrow> sampler \<Rightarrow> MarkovTrieDb \<Rightarrow> PosEnum list \<Rightarrow> MarkovWord list \<Rightarrow> exn + board option" where
  "generate cfg choice db structure subjects =
     (case assigned_board cfg structure subjects of
        (sentence_generations, assigned) \<Rightarrow>
          if \<not> assigned then Inr None
          else (case fst (u_generate_words cfg choice db (fst (u_split_sentences structure))
                            sentence_generations) of
                  Inl e \<Rightarrow> Inl e
                | Inr (filled, generations) \<Rightarrow> if \<not> filled then Inr None else Inr (Some generations)))"

section \<open>The trainer (class MarkovTrainer)\<close>

text \<open>A token is its text with the tag that \<open>get_pos_from_token\<close> gives it; a span is a
  list of tokens and a document the list of its sentences.\<close>

definition word_from_token :: "MarkovTrieDb \<Rightarrow> Token \<Rightarrow> MarkovTrieDb \<times> MarkovWord" where
  \<comment> \<open>\<open>MarkovWord.from_token\<close>: the word's dictionary \<open>{}\<close> is a new object\<close>
  "word_from_token db token =
     (db\<lparr>heap := (heap db)(fresh db := []), fresh := fresh db + 1\<rparr>,
      \<lparr>w_text = fst token, w_pos = snd token, neighbors = fresh db\<rparr>)"

definition ngramify :: "ml_config \<Rightarrow> Token list \<Rightarrow> (Token \<times> Token \<times> int) list" where
  "ngramify cfg tokens =
     concat (map (\<lambda>(a_idx, a).
               concat (map (\<lambda>(b_idx, b).
                         let d = int b_idx - int a_idx
                         in if d = 0 then []
                            else if \<bar>d\<bar> \<le> int (MARKOV_WINDOW_SIZE cfg) then [(a, b, d)]
                            else [])
                       (enumerate 0 tokens)))
             (enumerate 0 tokens))"

text \<open>
  \<open>np.array\<close> of a list of Python integers that all fit in 64 bits is an array of
  \<open>int64\<close>, and the sum of two such arrays is taken in 64 bits: it wraps around without an
  error. \<open>wrap64\<close> is the two's complement reading of the low 64 bits.
\<close>

definition int64 :: "int \<Rightarrow> bool" where
  "int64 x = (- (2 ^ 63) \<le> x \<and> x < 2 ^ 63)"

definition wrap64 :: "int \<Rightarrow> int" where
  "wrap64 x = (x + 2 ^ 63) mod 2 ^ 64 - 2 ^ 63"

text \<open>
  The sum of two one-dimensional integer arrays, as \<open>learn\<close> takes it, from list to list:
  equal lengths add entry by entry, an array of length one is broadcast, other shapes raise
  \<open>ValueError\<close>. For a list with an entry outside the 64-bit range NumPy chooses another
  element type (unsigned, floating or object), and the result need not be a list of
  integers; the model does not follow the sum there and answers \<open>Unmodelled\<close>. The trainer
  itself never writes such an entry: every entry that it writes is a value of \<open>wrap64\<close>.
\<close>

definition np_add :: "int list \<Rightarrow> int list \<Rightarrow> exn + int list" where
  "np_add xs ys =
     (if \<not> list_all int64 (xs @ ys) then Inl Unmodelled
      else if length xs = length ys then Inr (map2 (\<lambda>x y. wrap64 (x + y)) xs ys)
      else if length xs = 1 then Inr (map (\<lambda>y. wrap64 (hd xs + y)) ys)
      else if length ys = 1 then Inr (map (\<lambda>x. wrap64 (x + hd ys)) xs)
      else Inl ValueError)"

text \<open>
  The body of the loop of \<open>learn\<close> for one n-gram \<open>(a, b, d)\<close>, on the store and the
  \<open>row_cache\<close>. If it raises, the store is left as it is at that point: the count of a
  neighbor that was already stored has been raised in place, since \<open>neighbor.values\<close> is
  the stored list.
\<close>

definition learn_step ::
  "ml_config \<Rightarrow> MarkovTrieDb \<times> (string \<rightharpoonup> MarkovWord) \<Rightarrow> Token \<times> Token \<times> int
     \<Rightarrow> (exn \<times> MarkovTrieDb) + (MarkovTrieDb \<times> (string \<rightharpoonup> MarkovWord))" where
  "learn_step cfg st ngram =
     (case (st, ngram) of ((db, row_cache), (a, b, d)) \<Rightarrow>
        (case (case row_cache (fst a) of
                 Some w \<Rightarrow> (db, w)
               | None \<Rightarrow> (case select_db db (fst a) of
                             Some w \<Rightarrow> (db, w)
                           | None \<Rightarrow> word_from_token db a)) of
           (db1, word) \<Rightarrow>
             (case (case get_neighbor (heap db1 (neighbors word)) (fst b) of
                      Some n \<Rightarrow>
                        (let n' = n\<lparr>n_values := (fst (n_values n) + 1, snd (n_values n))\<rparr>
                         in (db1\<lparr>heap := (heap db1)(neighbors word :=
                                   AList.update (fst b) (n_pos n', n_values n', n_dist n')
                                     (heap db1 (neighbors word)))\<rparr>, n'))
                    | None \<Rightarrow>
                        (let n = neighbor_from_token cfg b
                         in (db1, n\<lparr>n_values := (fst (n_values n) + 1, snd (n_values n))\<rparr>))) of
                (db2, neighbor) \<Rightarrow>
                  (case distance_one_hot cfg d of
                     Inl e \<Rightarrow> Inl (e, db2)
                   | Inr dist_one_hot_add \<Rightarrow>
                       (case np_add (n_dist neighbor) dist_one_hot_add of
                          Inl e \<Rightarrow> Inl (e, db2)
                        | Inr ds \<Rightarrow>
                            (case neighbor_to_db_format (neighbor\<lparr>n_dist := ds\<rparr>) of
                               (key, neighbor_db) \<Rightarrow>
                                 (let db3 = db2\<lparr>heap := (heap db2)(neighbors word :=
                                              AList.update key neighbor_db (heap db2 (neighbors word)))\<rparr>
                                  in (case update_db db3 word of
                                        (db4, updated) \<Rightarrow>
                                          Inr (if updated = None then fst (insert_db db4 word) else db4,
                                               row_cache(fst a \<mapsto> word))))))))))"

fun learn_loop ::
  "ml_config \<Rightarrow> MarkovTrieDb \<times> (string \<rightharpoonup> MarkovWord) \<Rightarrow> (Token \<times> Token \<times> int) list
     \<Rightarrow> (exn \<times> MarkovTrieDb) + MarkovTrieDb" where
  "learn_loop cfg st [] = Inr (fst st)"
| "learn_loop cfg st (ngram # ngrams) =
     (case learn_step cfg st ngram of
        Inl e \<Rightarrow> Inl e
      | Inr st' \<Rightarrow> learn_loop cfg st' ngrams)"

definition learn :: "ml_config \<Rightarrow> MarkovTrieDb \<Rightarrow> Token list list \<Rightarrow> (exn \<times> MarkovTrieDb) + MarkovTrieDb" where
  "learn cfg db doc = learn_loop cfg (db, Map.empty) (concat (map (ngramify cfg) doc))"

text \<open>Successive calls of \<open>learn\<close>, one for each document, up to the first that raises.\<close>

fun learn_all :: "ml_config \<Rightarrow> MarkovTrieDb \<Rightarrow> Token list list list \<Rightarrow> (exn \<times> MarkovTrieDb) + MarkovTrieDb" where
  "learn_all cfg db [] = Inr db"
| "learn_all cfg db (doc # docs) =
     (case learn cfg db doc of
        Inl e \<Rightarrow> Inl e
      | Inr db' \<Rightarrow> learn_all cfg db' docs)"

text \<open>The invariant of a stored neighbor for window size \<open>K\<close>.\<close>

definition neighbor_invariant :: "ml_config \<Rightarrow> n_row \<Rightarrow> bool" where
  "neighbor_invariant cfg row =
     (case row of (p, (count, rating), ds) \<Rightarrow>
        length ds = 2 * MARKOV_WINDOW_SIZE cfg + 1 \<and> ds ! MARKOV_WINDOW_SIZE cfg = 0
        \<and> (\<forall>x \<in> set ds. 0 \<le> x) \<and> count = sum_list ds)"

text \<open>The number of n-grams that \<open>learn\<close> walks through for a sequence of documents.\<close>

definition ngram_count :: "ml_config \<Rightarrow> Token list list list \<Rightarrow> nat" where
  "ngram_count cfg docs = sum_list (map (\<lambda>doc. length (concat (map (ngramify cfg) doc))) docs)"

text \<open>Every neighbor record of every dictionary satisfies the invariant, with a count of at
  most \<open>m\<close>.\<close>

definition good_heap :: "ml_config \<Rightarrow> nat \<Rightarrow> (nat \<Rightarrow> ndict) \<Rightarrow> bool" where
  "good_heap cfg m dicts =
     (\<forall>r. \<forall>(key, row) \<in> set (dicts r). neighbor_invariant cfg row \<and> fst (fst (snd row)) \<le> int m)"
section \<open>Notions used in the statements, and two small stores\<close>

text \<open>In how many sentences of a board a word stands.\<close>

definition sentences_holding :: "MarkovWord \<Rightarrow> board \<Rightarrow> nat" where
  "sentences_holding w generations = length (filter (\<lambda>sentence. Some w \<in> set sentence) generations)"

text \<open>A word is consistent with a store when each of its neighbor records carries the tag
  of the word that the store returns for the record's key. A store is consistent for a list
  of subjects when the subjects and all the words it returns are.\<close>

definition pos_consistent :: "MarkovTrieDb \<Rightarrow> MarkovWord \<Rightarrow> bool" where
  "pos_consistent db w =
     (\<forall>(key, row) \<in> set (heap db (neighbors w)).
        case select_db db key of None \<Rightarrow> True | Some w' \<Rightarrow> w_pos w' = fst row)"

definition store_consistent :: "MarkovTrieDb \<Rightarrow> MarkovWord list \<Rightarrow> bool" where
  "store_consistent db subjects =
     ((\<forall>w \<in> set subjects. pos_consistent db w)
      \<and> (\<forall>t w. select_db db t = Some w \<longrightarrow> pos_consistent db w))"

text \<open>The slots of one sentence agree with the sentence's tags.\<close>

definition slots_ok :: "MarkovTrieDb \<Rightarrow> PosEnum list \<Rightarrow> MarkovWord option list \<Rightarrow> bool" where
  "slots_ok db tags sentence =
     (length sentence = length tags
      \<and> (\<forall>i < length sentence. \<forall>w. sentence ! i = Some w \<longrightarrow> w_pos w = tags ! i \<and> pos_consistent db w))"

text \<open>A configuration with window size 2, as in the scenarios of the spec.\<close>

definition example_config :: ml_config where
  "example_config =
     \<lparr>MARKOV_WINDOW_SIZE = 2, MARKOV_GENERATION_WEIGHT_COUNT = 1,
      MARKOV_GENERATION_WEIGHT_RATING = 1, MARKOV_GENERATE_SUBJECT_POS_PRIORITY = [NOUN, VERB]\<rparr>"

definition cat :: MarkovWord where
  "cat = \<lparr>w_text = ''cat'', w_pos = NOUN, neighbors = 0\<rparr>"

definition sat :: MarkovWord where
  "sat = \<lparr>w_text = ''sat'', w_pos = VERB, neighbors = 1\<rparr>"

definition mat :: MarkovWord where
  "mat = \<lparr>w_text = ''mat'', w_pos = NOUN, neighbors = 2\<rparr>"

text \<open>The store after one \<open>learn\<close> of the sentence \<open>cat sat mat\<close> (lemma \<open>example_db_trained\<close>).\<close>

definition example_doc :: "Token list list" where
  "example_doc = [[(''cat'', NOUN), (''sat'', VERB), (''mat'', NOUN)]]"

definition example_db :: MarkovTrieDb where
  "example_db =
     \<lparr>u_trie = Node None
        [(CHR ''c'', Node None [(CHR ''a'', Node None [(CHR ''t'', Node (Some (''cat'', NOUN, 0)) [])])]),
         (CHR ''s'', Node None [(CHR ''a'', Node None [(CHR ''t'', Node (Some (''sat'', VERB, 1)) [])])]),
         (CHR ''m'', Node None [(CHR ''a'', Node None [(CHR ''t'', Node (Some (''mat'', NOUN, 2)) [])])])],
      heap = (\<lambda>_. [])
        (0 := [(''sat'', VERB, (1, 0), [0, 0, 0, 1, 0]), (''mat'', NOUN, (1, 0), [0, 0, 0, 0, 1])],
         1 := [(''cat'', NOUN, (1, 0), [0, 1, 0, 0, 0]), (''mat'', NOUN, (1, 0), [0, 0, 0, 1, 0])],
         2 := [(''cat'', NOUN, (1, 0), [1, 0, 0, 0, 0]), (''sat'', VERB, (1, 0), [0, 1, 0, 0, 0])]),
      fresh = 3\<rparr>"

text \<open>The store after a \<open>learn\<close> of \<open>run far\<close>, where \<open>run\<close> is tagged as a noun, and a
  \<open>learn\<close> of \<open>cat run\<close>, where it is tagged as a verb (lemma \<open>clash_db_trained\<close>).\<close>

definition clash_docs :: "Token list list list" where
  "clash_docs = [[[(''run'', NOUN), (''far'', ADV)]], [[(''cat'', NOUN), (''run'', VERB)]]]"

definition clash_db :: MarkovTrieDb where
  "clash_db =
     \<lparr>u_trie = Node None
        [(CHR ''r'', Node None [(CHR ''u'', Node None [(CHR ''n'', Node (Some (''run'', NOUN, 0)) [])])]),
         (CHR ''f'', Node None [(CHR ''a'', Node None [(CHR ''r'', Node (Some (''far'', ADV, 1)) [])])]),
         (CHR ''c'', Node None [(CHR ''a'', Node None [(CHR ''t'', Node (Some (''cat'', NOUN, 2)) [])])])],
      heap = (\<lambda>_. [])
        (0 := [(''far'', ADV, (1, 0), [0, 0, 0, 1, 0]), (''cat'', NOUN, (1, 0), [0, 1, 0, 0, 0])],
         1 := [(''run'', NOUN, (1, 0), [0, 1, 0, 0, 0])],
         2 := [(''run'', VERB, (1, 0), [0, 0, 0, 1, 0])]),
      fresh = 3\<rparr>"


text \<open>The store after \<open>n\<close> calls of \<open>learn\<close>, \<open>n\<close> at least one, each with the document
  \<open>a b\<close> (lemma \<open>repeated_db_trained\<close>): the counts are Python integers, the histogram
  entries have gone through the 64-bit sum.\<close>

definition repeated_doc :: "Token list list" where
  "repeated_doc = [[(''a'', NOUN), (''b'', VERB)]]"

definition repeated_db :: "nat \<Rightarrow> MarkovTrieDb" where
  "repeated_db n =
     \<lparr>u_trie = Node None
        [(CHR ''a'', Node (Some (''a'', NOUN, 0)) []),
         (CHR ''b'', Node (Some (''b'', VERB, 1)) [])],
      heap = (\<lambda>_. [])
        (0 := [(''b'', VERB, (int n, 0), [0, 0, 0, wrap64 (int n), 0])],
         1 := [(''a'', NOUN, (int n, 0), [0, wrap64 (int n), 0, 0, 0])]),
      fresh = 2\<rparr>"
section \<open>The two stores are trained stores\<close>

lemma example_db_trained: "learn example_config empty_db example_doc = Inr example_db"
  by (simp add: learn_def example_doc_def example_config_def ngramify_def learn_step_def
      empty_db_def select_db_def u_select_def u_getnode_def word_from_token_def get_neighbor_def
      neighbor_from_token_def distance_one_hot_def one_hot_def np_add_def int64_def wrap64_def neighbor_to_db_format_def
      update_db_def u_update_def insert_db_def u_insert_def lower_def Let_def example_db_def
      word_from_db_format_def fun_eq_iff numeral_2_eq_2 numeral_3_eq_3)

lemma clash_db_trained: "learn_all example_config empty_db clash_docs = Inr clash_db"
  by (simp add: learn_def clash_docs_def example_config_def ngramify_def learn_step_def
      empty_db_def select_db_def u_select_def u_getnode_def word_from_token_def get_neighbor_def
      neighbor_from_token_def distance_one_hot_def one_hot_def np_add_def int64_def wrap64_def neighbor_to_db_format_def
      update_db_def u_update_def insert_db_def u_insert_def lower_def Let_def clash_db_def
      word_from_db_format_def fun_eq_iff numeral_2_eq_2 numeral_3_eq_3)


lemma wrap64_id: "int64 x \<Longrightarrow> wrap64 x = x"
  by (simp add: int64_def wrap64_def)

lemma int64_wrap64: "int64 (wrap64 x)"
proof -
  have "0 \<le> (x + 2 ^ 63) mod (2 ^ 64 :: int)" "(x + 2 ^ 63) mod (2 ^ 64 :: int) < 2 ^ 64"
    by simp_all
  then show ?thesis by (simp add: int64_def wrap64_def)
qed

lemma wrap64_wrap64: "wrap64 (wrap64 x + y) = wrap64 (x + y)"
proof -
  have "wrap64 x + y + 2 ^ 63 = (x + 2 ^ 63) mod 2 ^ 64 + y"
    by (simp add: wrap64_def)
  then have "(wrap64 x + y + 2 ^ 63) mod 2 ^ 64 = ((x + 2 ^ 63) mod 2 ^ 64 + y) mod (2 ^ 64 :: int)"
    by (rule arg_cong)
  also have "\<dots> = (x + 2 ^ 63 + y) mod 2 ^ 64"
    by (rule mod_add_left_eq)
  also have "x + 2 ^ 63 + y = x + y + 2 ^ 63"
    by simp
  finally have "(wrap64 x + y + 2 ^ 63) mod 2 ^ 64 - 2 ^ 63 = (x + y + 2 ^ 63) mod 2 ^ 64 - (2 ^ 63 :: int)"
    by (rule arg_cong)
  then show ?thesis
    unfolding wrap64_def[of "wrap64 x + y"] wrap64_def[of "x + y"] .
qed

lemma repeated_db_first: "learn example_config empty_db repeated_doc = Inr (repeated_db 1)"
  by (simp add: learn_def repeated_doc_def example_config_def ngramify_def learn_step_def
      empty_db_def select_db_def u_select_def u_getnode_def word_from_token_def get_neighbor_def
      neighbor_from_token_def distance_one_hot_def one_hot_def np_add_def int64_def wrap64_def
      neighbor_to_db_format_def
      update_db_def u_update_def insert_db_def u_insert_def lower_def Let_def repeated_db_def
      word_from_db_format_def fun_eq_iff numeral_2_eq_2 numeral_3_eq_3)

lemma repeated_db_next:
  "learn example_config (repeated_db (Suc n)) repeated_doc = Inr (repeated_db (Suc (Suc n)))"
proof -
  have w: "wrap64 0 = 0" "int64 0" "int64 1" by (simp_all add: wrap64_def int64_def)
  have "wrap64 (wrap64 (1 + int n) + 1) = wrap64 (1 + int n + 1)"
    by (rule wrap64_wrap64)
  also have "1 + int n + 1 = 2 + int n"
    by simp
  finally have s: "wrap64 (wrap64 (1 + int n) + 1) = wrap64 (2 + int n)" .
  show ?thesis
    by (simp add: learn_def repeated_doc_def example_config_def ngramify_def learn_step_def
      select_db_def u_select_def u_getnode_def word_from_token_def get_neighbor_def
      neighbor_from_token_def distance_one_hot_def one_hot_def np_add_def w s int64_wrap64
      neighbor_to_db_format_def
      update_db_def u_update_def insert_db_def u_insert_def lower_def Let_def repeated_db_def
      word_from_db_format_def fun_eq_iff numeral_2_eq_2 numeral_3_eq_3)
qed

lemma repeated_db_from:
  "learn_all example_config (repeated_db (Suc k)) (replicate m repeated_doc) = Inr (repeated_db (Suc k + m))"
proof (induction m arbitrary: k)
  case 0
  then show ?case by simp
next
  case (Suc m)
  from Suc.IH[of "Suc k"] show ?case by (simp add: repeated_db_next)
qed

lemma repeated_db_trained:
  "learn_all example_config empty_db (replicate (Suc m) repeated_doc) = Inr (repeated_db (Suc m))"
  using repeated_db_from[of 0 m] by (simp add: repeated_db_first)
section \<open>Properties of the filters\<close>

lemma amp_codes: "amp = [38, 97, 109, 112, 59]"
  by (simp add: amp_def)

lemma stripped_codes:
  "stripped_chars = [44, 58, 59, 39, 96, 45, 95, 8220, 94, 34, 40, 41, 123, 125, 47, 92, 42]"
  by (simp add: stripped_chars_def)

lemma short_list:
  "length cs < 4 \<Longrightarrow> cs = [] \<or> (\<exists>a. cs = [a]) \<or> (\<exists>a b. cs = [a, b]) \<or> (\<exists>a b d. cs = [a, b, d])"
  by (auto simp: numeral_eq_Suc less_Suc_eq length_Suc_conv)

lemma no_amp_start:
  assumes "\<not> sublist amp (c # cs)" and "rest = [] \<or> hd rest = 38"
  shows "take 5 (c # cs @ rest) \<noteq> amp"
proof
  assume t: "take 5 (c # cs @ rest) = amp"
  show False
  proof (cases "length cs < 4")
    case False
    then have "take 5 (c # cs @ rest) = take 5 (c # cs)" by simp
    with t have "c # cs = [] @ amp @ drop 5 (c # cs)"
      by (metis append_take_drop_id append_Nil)
    then have "sublist amp (c # cs)" unfolding sublist_def by blast
    with assms(1) show False by simp
  next
    case True
    from short_list[OF this] show False
      using t assms(2) by (cases rest) (auto simp: amp_codes)
  qed
qed

lemma sub_amp_piece:
  "\<not> sublist amp p \<Longrightarrow> rest = [] \<or> hd rest = 38 \<Longrightarrow> sub_amp (p @ rest) = p @ sub_amp rest"
proof (induction p)
  case Nil
  then show ?case by simp
next
  case (Cons c cs)
  have "\<not> sublist amp cs" using Cons.prems(1) by (auto simp: sublist_Cons_right)
  with Cons have "sub_amp (cs @ rest) = cs @ sub_amp rest" by simp
  moreover have "take 5 (c # cs @ rest) \<noteq> amp"
    using Cons.prems by (rule no_amp_start)
  ultimately show ?case by simp
qed

lemma sub_amp_amp: "sub_amp (amp @ rest) = sub_amp rest"
  by (simp add: amp_codes)

lemma sub_amp_pieces:
  "\<not> sublist amp p0 \<Longrightarrow> \<forall>p \<in> set ps. \<not> sublist amp p \<Longrightarrow>
   sub_amp (p0 @ concat (map ((@) amp) ps)) = p0 @ concat ps"
proof (induction ps arbitrary: p0)
  case Nil
  then show ?case using sub_amp_piece[of p0 "[]"] by simp
next
  case (Cons p ps)
  have "sub_amp (p0 @ amp @ p @ concat (map ((@) amp) ps)) = p0 @ sub_amp (amp @ p @ concat (map ((@) amp) ps))"
    using Cons.prems(1) by (intro sub_amp_piece) (simp_all add: amp_codes)
  also have "\<dots> = p0 @ sub_amp (p @ concat (map ((@) amp) ps))"
    by (simp only: sub_amp_amp)
  also have "\<dots> = p0 @ p @ concat ps"
    using Cons.IH[of p] Cons.prems(2) by simp
  finally show ?case by simp
qed

lemma first_amp:
  "sublist amp x \<Longrightarrow> \<exists>p rest. x = p @ amp @ rest \<and> \<not> sublist amp p"
proof (induction "length x" arbitrary: x rule: less_induct)
  case less
  from less.prems obtain p rest where x: "x = p @ amp @ rest" unfolding sublist_def by blast
  show ?case
  proof (cases "sublist amp p")
    case False
    with x show ?thesis by blast
  next
    case True
    have "length p < length x" using x by (simp add: amp_codes)
    from less.hyps[OF this True] obtain q r where "p = q @ amp @ r" and "\<not> sublist amp q" by blast
    with x have "x = q @ amp @ (r @ amp @ rest)" by simp
    with \<open>\<not> sublist amp q\<close> show ?thesis by blast
  qed
qed

lemma amp_pieces:
  "\<exists>q0 qs. x = q0 @ concat (map ((@) amp) qs) \<and> \<not> sublist amp q0 \<and> (\<forall>q \<in> set qs. \<not> sublist amp q)"
proof (induction "length x" arbitrary: x rule: less_induct)
  case less
  show ?case
  proof (cases "sublist amp x")
    case False
    then have "x = x @ concat (map ((@) amp) []) \<and> \<not> sublist amp x \<and> (\<forall>q \<in> set []. \<not> sublist amp q)"
      by simp
    then show ?thesis by blast
  next
    case True
    from first_amp[OF this] obtain p rest where x: "x = p @ amp @ rest" and p: "\<not> sublist amp p" by blast
    have "length rest < length x" using x by (simp add: amp_codes)
    from less.hyps[OF this] obtain q0 qs where
      r: "rest = q0 @ concat (map ((@) amp) qs)" and q: "\<not> sublist amp q0" "\<forall>q \<in> set qs. \<not> sublist amp q"
      by blast
    have "x = p @ concat (map ((@) amp) (q0 # qs))" using x r by simp
    moreover have "\<forall>q \<in> set (q0 # qs). \<not> sublist amp q" using q by simp
    ultimately show ?thesis using p by blast
  qed
qed

lemma kept_sub_class:
  "\<forall>c. alnum c \<longrightarrow> c \<notin> set stripped_chars \<Longrightarrow> filter alnum (sub_class s) = filter alnum s"
  unfolding sub_class_def by (induction s) auto

lemma kept_sub_space:
  "\<forall>c. alnum c \<longrightarrow> c \<noteq> 32 \<Longrightarrow> filter alnum (sub_space s) = filter alnum s"
  by (induction s rule: sub_space.induct) auto

text \<open>
  C9, as stated, fails: \<open>filter_input\<close> deletes every occurrence of \<open>&amp;\<close>, the letters
  \<open>a\<close>, \<open>m\<close> and \<open>p\<close> with it. On the input \<open>&amp;\<close> the output is empty, and the three
  alphanumeric characters of the input are gone.
\<close>

theorem filters_drop_amp_letters:
  "smooth_output (filter_input (Some amp)) = Some []
   \<and> filter ascii_alnum amp = [97, 109, 112]
   \<and> \<not> subseq (filter ascii_alnum amp) []"
  by (simp add: ascii_alnum_def filter_input_def smooth_output_def sub_class_def amp_codes)

text \<open>
  C9, amended. Let \<open>alnum\<close> be a class of characters that holds none of the seventeen
  characters of the class of \<open>filter_input\<close> and not the space, as the alphanumeric
  characters do. For an input \<open>p0 &amp; p1 &amp; ... &amp; pn\<close> whose pieces \<open>p0, ..., pn\<close> do
  not contain \<open>&amp;\<close>, the characters of the class in \<open>smooth_output(filter_input(x))\<close>
  are, in order and with multiplicity, those of \<open>p0 p1 ... pn\<close>: only the occurrences of
  \<open>&amp;\<close> are lost. Every input \<open>x\<close> is of that form; for \<open>n = 0\<close> this says that an
  input without \<open>&amp;\<close> keeps all its alphanumeric characters.
\<close>

theorem filters_keep_alnum:
  assumes "\<forall>c. alnum c \<longrightarrow> c \<notin> set stripped_chars \<and> c \<noteq> 32"
  shows "(\<not> sublist amp p0 \<and> (\<forall>p \<in> set ps. \<not> sublist amp p) \<longrightarrow>
            map_option (filter alnum) (smooth_output (filter_input (Some (p0 @ concat (map ((@) amp) ps)))))
              = Some (filter alnum (p0 @ concat ps)))
     \<and> (\<exists>q0 qs. x = q0 @ concat (map ((@) amp) qs)
           \<and> \<not> sublist amp q0 \<and> (\<forall>q \<in> set qs. \<not> sublist amp q))"
proof -
  have a: "\<forall>c. alnum c \<longrightarrow> c \<notin> set stripped_chars" and b: "\<forall>c. alnum c \<longrightarrow> c \<noteq> 32"
    using assms by auto
  show ?thesis
    using amp_pieces[of x]
    by (simp add: filter_input_def smooth_output_def kept_sub_class[OF a] kept_sub_space[OF b]
          sub_amp_pieces)
qed

theorem filters_keep_alnum_witness:
  "\<not> sublist amp (map of_char ''Hi , you'') \<and> \<not> sublist amp (map of_char ''me-2 !'')
   \<and> filter ascii_alnum (stripped_chars @ [of_char (CHR '' '')]) = []
   \<and> smooth_output (filter_input (Some (map of_char ''Hi , you&amp;me-2 !'')))
       = Some (map of_char ''Hi  youme2!'')
   \<and> map_option (filter ascii_alnum)
         (smooth_output (filter_input (Some (map of_char ''Hi , you'' @ concat (map ((@) amp) [map of_char ''me-2 !''])))))
       = Some (filter ascii_alnum (map of_char ''Hi , you'' @ concat [map of_char ''me-2 !'']))"
proof -
  have k: "\<forall>c. ascii_alnum c \<longrightarrow> c \<notin> set stripped_chars \<and> c \<noteq> 32"
    by (auto simp: ascii_alnum_def stripped_codes)
  have p0: "\<not> sublist amp (map of_char ''Hi , you'')"
    by (simp add: amp_codes sublist_Cons_right prefix_Cons)
  have p1: "\<not> sublist amp (map of_char ''me-2 !'')"
    by (simp add: amp_codes sublist_Cons_right prefix_Cons)
  have s: "filter ascii_alnum (stripped_chars @ [of_char (CHR '' '')]) = []"
    by (simp add: ascii_alnum_def stripped_codes)
  have o: "smooth_output (filter_input (Some (map of_char ''Hi , you&amp;me-2 !'')))
       = Some (map of_char ''Hi  youme2!'')"
    by (simp add: filter_input_def smooth_output_def sub_class_def stripped_codes amp_codes smooth_marks_def)
  have p1_all: "\<forall>p \<in> set [map of_char ''me-2 !'']. \<not> sublist amp p" using p1 by simp
  from filters_keep_alnum [OF k, THEN conjunct1, rule_format, OF conjI, OF p0 p1_all]
  show ?thesis using p0 p1 s o by blast
qed

section \<open>Properties of the trie store\<close>

lemma select_empty_text: "select_db db '''' = None"
  by (simp add: select_db_def u_select_def u_getnode_def)

lemma update_empty_text: "w_text word = '''' \<Longrightarrow> update_db db word = (db, None)"
  by (simp add: update_db_def u_update_def u_select_def u_getnode_def)

lemma insert_empty_text:
  "w_text word = '''' \<Longrightarrow>
   insert_db db word
     = (db\<lparr>u_trie := Node (Some ('''', w_pos word, neighbors word)) (children (u_trie db))\<rparr>, Some word)"
  by (simp add: insert_db_def u_insert_def word_from_db_format_def Let_def)

text \<open>
  C7: for the empty text, \<open>select\<close> and \<open>update\<close> return \<open>None\<close> and leave the store as it
  is (\<open>_getnode\<close> refuses the empty word), but \<open>insert\<close> does not: \<open>_insert\<close> has no such
  test, its loop runs zero times and it writes the payload into the root. On the empty store
  \<open>insert\<close> returns the word, the trie has a payload it did not have before, and no
  \<open>select\<close> finds it.
\<close>

theorem insert_empty_text_writes_root:
  "insert_db empty_db \<lparr>w_text = '''', w_pos = NOUN, neighbors = 0\<rparr>
     = (empty_db\<lparr>u_trie := Node (Some ('''', NOUN, 0)) []\<rparr>,
        Some \<lparr>w_text = '''', w_pos = NOUN, neighbors = 0\<rparr>)
   \<and> payloads (u_trie empty_db) = []
   \<and> payloads (Node (Some ('''', NOUN, 0)) []) = [('''', NOUN, 0)]
   \<and> select_db (empty_db\<lparr>u_trie := Node (Some ('''', NOUN, 0)) []\<rparr>) '''' = None
   \<and> select_db empty_db '''' = None
   \<and> update_db empty_db \<lparr>w_text = '''', w_pos = NOUN, neighbors = 0\<rparr> = (empty_db, None)"
  by (simp add: insert_db_def u_insert_def word_from_db_format_def empty_db_def Let_def
        select_empty_text update_empty_text)

section \<open>Properties of the generator\<close>

lemma split_loop_no_eos:
  "\<forall>(i, p) \<in> set ps. p \<noteq> EOS \<Longrightarrow> u_split_sentences_loop s start ps = []"
  by (induction s start ps rule: u_split_sentences_loop.induct) auto

lemma split_no_eos: "EOS \<notin> set structure \<Longrightarrow> u_split_sentences structure = ([], [])"
proof -
  assume "EOS \<notin> set structure"
  then have "\<forall>(i, p) \<in> set (enumerate 0 structure). p \<noteq> EOS"
    by (auto simp: in_set_enumerate_eq) (metis nth_mem)
  then show ?thesis by (simp add: u_split_sentences_def split_loop_no_eos)
qed

lemma generate_words_empty: "u_generate_words cfg choice db [] [] = (Inr (False, []), 1)"
  by (simp add: u_generate_words_def u_generate_words_loop.simps u_work_remaining_def)

text \<open>
  C10: a skeleton that is not empty and holds no \<open>EOS\<close> yields no sentence at all: the
  split keeps only what an \<open>EOS\<close> closes. The fill loop then makes one pass, finds the
  work unchanged (zero) and reports no progress, and \<open>generate\<close> returns \<open>None\<close>, whatever
  the store, the subjects and the sampler are.
\<close>

theorem generate_without_eos:
  assumes "structure \<noteq> []" and "EOS \<notin> set structure"
  shows "u_split_sentences structure = ([], [])
    \<and> u_generate_words cfg choice db (fst (u_split_sentences structure)) (snd (u_split_sentences structure))
        = (Inr (False, []), 1)
    \<and> generate cfg choice db structure subjects = Inr None"
  using assms(2)
  by (simp add: split_no_eos generate_def assigned_board_def u_assign_subjects_def generate_words_empty)

theorem generate_without_eos_witness:
  "[NOUN, VERB] \<noteq> [] \<and> EOS \<notin> set [NOUN, VERB]
   \<and> generate \<lparr>MARKOV_WINDOW_SIZE = 8, MARKOV_GENERATION_WEIGHT_COUNT = 1,
        MARKOV_GENERATION_WEIGHT_RATING = 1, MARKOV_GENERATE_SUBJECT_POS_PRIORITY = [NOUN]\<rparr>
       (np_random_choice (\<lambda>_. 0)) empty_db [NOUN, VERB] [\<lparr>w_text = ''cat'', w_pos = NOUN, neighbors = 0\<rparr>]
     = Inr None"
  using generate_without_eos [of "[NOUN, VERB]" "\<lparr>MARKOV_WINDOW_SIZE = 8, MARKOV_GENERATION_WEIGHT_COUNT = 1,
        MARKOV_GENERATION_WEIGHT_RATING = 1, MARKOV_GENERATE_SUBJECT_POS_PRIORITY = [NOUN]\<rparr>"
        "np_random_choice (\<lambda>_. 0)" empty_db "[\<lparr>w_text = ''cat'', w_pos = NOUN, neighbors = 0\<rparr>]"]
  by simp

lemma assign_words_flag:
  "a \<noteq> Some False \<Longrightarrow> snd (assign_words subjects ps (g, a)) \<noteq> Some False"
  by (induction subjects ps "(g, a)" arbitrary: g a rule: assign_words.induct)
     (auto split: option.splits)

lemma assign_sentences_flags:
  "Some False \<notin> set sa \<Longrightarrow> Some False \<notin> set (snd (assign_sentences subjects ss (g, sa)))"
proof (induction subjects ss "(g, sa)" arbitrary: g sa rule: assign_sentences.induct)
  case (1 subjects)
  then show ?case by simp
next
  case (2 subjects sentence_idx sentence rest generations sentences_assigned)
  obtain g' a' where aw: "assign_words subjects (enumerate 0 sentence)
       (generations ! sentence_idx, sentences_assigned ! sentence_idx) = (g', a')"
    by (cases "assign_words subjects (enumerate 0 sentence)
       (generations ! sentence_idx, sentences_assigned ! sentence_idx)")
  have "a' \<noteq> Some False \<or> \<not> sentence_idx < length sentences_assigned"
  proof (cases "sentence_idx < length sentences_assigned")
    case True
    then have "sentences_assigned ! sentence_idx \<noteq> Some False"
      using "2.prems" by (metis nth_mem)
    from assign_words_flag[OF this] aw show ?thesis by (metis snd_conv)
  qed simp
  then have "Some False \<notin> set (sentences_assigned[sentence_idx := a'])"
  proof
    assume "a' \<noteq> Some False"
    then show ?thesis
      using "2.prems" by (auto dest!: set_update_subset_insert[THEN subsetD])
  next
    assume "\<not> sentence_idx < length sentences_assigned"
    then have "sentences_assigned[sentence_idx := a'] = sentences_assigned"
      by (simp add: list_update_beyond)
    then show ?thesis using "2.prems" by simp
  qed
  from "2.hyps"[OF aw[symmetric] this] aw show ?case by simp
qed

lemma assign_subjects_true: "snd (u_assign_subjects subjects sentence_structures sentence_generations)"
proof -
  have "Some False \<notin> set (replicate (length sentence_structures) (None :: bool option))" by simp
  from assign_sentences_flags[OF this, of subjects "enumerate 0 sentence_structures" sentence_generations]
  show ?thesis by (auto simp: u_assign_subjects_def split: prod.splits)
qed

text \<open>
  C1: the closing check of \<open>_assign_subjects\<close> compares the entries of
  \<open>sentences_assigned\<close> with \<open>False\<close>, but an entry is \<open>None\<close> or \<open>True\<close>, so
  \<open>_assign_subjects\<close> returns \<open>True\<close> on every input and \<open>generate\<close> never takes its first
  \<open>return None\<close>. For the skeleton \<open>[ADJ, EOS]\<close> and a subject that is a noun the
  assignment succeeds with the slot left blank; the \<open>None\<close> that \<open>generate\<close> returns comes
  from the fill loop, which makes a pass and finds no progress. When another sentence has a
  subject, the fill loop works on it although a sentence has none: for the skeleton
  \<open>[NOUN, VERB, NOUN, EOS, ADJ, EOS]\<close>, the subject \<open>cat\<close> and the store trained on
  \<open>cat sat mat\<close>, the first pass projects \<open>cat\<close> from the third slot onto the second, all
  probabilities are \<open>nan\<close>, and the sampler raises instead of \<open>generate\<close> returning \<open>None\<close>.
\<close>

theorem no_anchor_never_reported:
  "snd (u_assign_subjects subjects sentence_structures sentence_generations)
   \<and> assigned_board cfg [ADJ, EOS] [\<lparr>w_text = t, w_pos = NOUN, neighbors = n\<rparr>] = ([[None]], True)
   \<and> u_generate_words cfg choice db [[ADJ]] [[None]] = (Inr (False, [[None]]), 1)
   \<and> generate cfg choice db [ADJ, EOS] [\<lparr>w_text = t, w_pos = NOUN, neighbors = n\<rparr>] = Inr None
   \<and> assigned_board example_config [NOUN, VERB, NOUN, EOS, ADJ, EOS] [cat]
       = ([[Some cat, None, Some cat], [None]], True)
   \<and> generate example_config (np_random_choice draws) example_db [NOUN, VERB, NOUN, EOS, ADJ, EOS] [cat]
       = Inl ValueError"
proof -
  have ab2: "assigned_board example_config [NOUN, VERB, NOUN, EOS, ADJ, EOS] [cat]
       = ([[Some cat, None, Some cat], [None]], True)"
    by code_simp
  have raises: "generate example_config (np_random_choice draws) example_db
       [NOUN, VERB, NOUN, EOS, ADJ, EOS] [cat] = Inl ValueError"
    by code_simp
  have find_none: "find (\<lambda>subject. w_pos subject = ADJ)
      (u_sort_subjects cfg [\<lparr>w_text = t, w_pos = NOUN, neighbors = n\<rparr>]) = None"
    by (auto simp: find_None_iff u_sort_subjects_def)
  have ab: "assigned_board cfg [ADJ, EOS] [\<lparr>w_text = t, w_pos = NOUN, neighbors = n\<rparr>] = ([[None]], True)"
    by (simp add: assigned_board_def u_split_sentences_def u_assign_subjects_def find_none)
  have gw: "u_generate_words cfg choice db [[ADJ]] [[None]] = (Inr (False, [[None]]), 1)"
    by (simp add: u_generate_words_def u_generate_words_loop.simps u_work_remaining_def
          sentence_pass_def handle_projections_def)
  have sp: "fst (u_split_sentences [ADJ, EOS]) = [[ADJ]]"
    by (simp add: u_split_sentences_def)
  have none: "generate cfg choice db [ADJ, EOS] [\<lparr>w_text = t, w_pos = NOUN, neighbors = n\<rparr>] = Inr None"
    using ab gw by (simp add: generate_def sp)
  show ?thesis
    using assign_subjects_true ab gw none ab2 raises by blast
qed

lemma assign_words_fst:
  "length g = n + length ps \<Longrightarrow>
   fst (assign_words subjects (enumerate n ps) (g, a))
     = take n g @ map2 (\<lambda>p old. case find (\<lambda>subject. w_pos subject = p) subjects of
                                     Some s \<Rightarrow> Some s | None \<Rightarrow> old) ps (drop n g)"
proof (induction ps arbitrary: n g a)
  case Nil
  then show ?case by simp
next
  case (Cons p ps)
  have n: "n < length g" using Cons.prems by simp
  have dr: "drop n g = g ! n # drop (Suc n) g" using n by (simp add: Cons_nth_drop_Suc)
  show ?case
  proof (cases "find (\<lambda>subject. w_pos subject = p) subjects")
    case None
    have "length g = Suc n + length ps" using Cons.prems by simp
    from Cons.IH[OF this, of a] None n show ?thesis
      by (simp add: dr take_Suc_conv_app_nth)
  next
    case (Some s)
    have "length (g[n := Some s]) = Suc n + length ps" using Cons.prems by simp
    from Cons.IH[OF this, of "Some True"] Some n show ?thesis
      by (simp add: dr take_Suc_conv_app_nth)
  qed
qed

lemma assign_words_blank:
  "fst (assign_words subjects (enumerate 0 ps) (replicate (length ps) None, a))
     = map (\<lambda>p. find (\<lambda>subject. w_pos subject = p) subjects) ps"
proof -
  have "map2 (\<lambda>p old. case find (\<lambda>subject. w_pos subject = p) subjects of
                         Some s \<Rightarrow> Some s | None \<Rightarrow> old) ps (replicate (length ps) None)
        = map (\<lambda>p. find (\<lambda>subject. w_pos subject = p) subjects) ps"
    by (induction ps) (auto split: option.splits)
  then show ?thesis
    using assign_words_fst[of "replicate (length ps) None" 0 ps subjects a] by simp
qed

lemma assign_sentences_fst:
  "length b = n + length ss \<Longrightarrow> drop n b = map (\<lambda>sentence. replicate (length sentence) None) ss \<Longrightarrow>
   fst (assign_sentences subjects (enumerate n ss) (b, sa))
     = take n b @ map (map (\<lambda>p. find (\<lambda>subject. w_pos subject = p) subjects)) ss"
proof (induction ss arbitrary: n b sa)
  case Nil
  then show ?case by simp
next
  case (Cons sentence ss)
  have n: "n < length b" using Cons.prems by simp
  have dr: "drop n b = b ! n # drop (Suc n) b" using n by (simp add: Cons_nth_drop_Suc)
  have bn: "b ! n = replicate (length sentence) None"
    and rest: "drop (Suc n) b = map (\<lambda>sentence. replicate (length sentence) None) ss"
    using Cons.prems(2) dr by simp_all
  obtain g a where aw: "assign_words subjects (enumerate 0 sentence) (b ! n, sa ! n) = (g, a)"
    by (cases "assign_words subjects (enumerate 0 sentence) (b ! n, sa ! n)")
  have g: "g = map (\<lambda>p. find (\<lambda>subject. w_pos subject = p) subjects) sentence"
    using assign_words_blank[of subjects sentence "sa ! n"] aw bn by simp
  have "length (b[n := g]) = Suc n + length ss" using Cons.prems by simp
  moreover have "drop (Suc n) (b[n := g]) = map (\<lambda>sentence. replicate (length sentence) None) ss"
    using rest by simp
  ultimately have "fst (assign_sentences subjects (enumerate (Suc n) ss) (b[n := g], sa[n := a]))
     = take (Suc n) (b[n := g]) @ map (map (\<lambda>p. find (\<lambda>subject. w_pos subject = p) subjects)) ss"
    by (rule Cons.IH)
  then show ?case using aw n g
    by (simp add: take_Suc_conv_app_nth)
qed

lemma assign_subjects_board:
  "fst (u_assign_subjects subjects ss (map (\<lambda>sentence. replicate (length sentence) None) ss))
     = map (map (\<lambda>p. find (\<lambda>subject. w_pos subject = p) subjects)) ss"
  using assign_sentences_fst[of "map (\<lambda>sentence. replicate (length sentence) None) ss" 0 ss subjects
          "replicate (length ss) None"]
  by (auto simp: u_assign_subjects_def split: prod.splits)

lemma assigned_slots:
  "fst (assigned_board cfg structure subjects)
     = map (map (\<lambda>p. find (\<lambda>subject. w_pos subject = p) (u_sort_subjects cfg subjects)))
         (fst (u_split_sentences structure))"
  by (simp add: assigned_board_def u_split_sentences_def Let_def assign_subjects_board)

lemma sort_subjects_subset: "set (u_sort_subjects cfg subjects) \<subseteq> set subjects"
  by (auto simp: u_sort_subjects_def)

lemma assigned_slot_find:
  assumes "s < length (fst (assigned_board cfg structure subjects))"
    and "i < length (fst (assigned_board cfg structure subjects) ! s)"
    and "fst (assigned_board cfg structure subjects) ! s ! i = Some w"
  shows "find (\<lambda>subject. w_pos subject = fst (u_split_sentences structure) ! s ! i)
           (u_sort_subjects cfg subjects) = Some w
     \<and> w \<in> set subjects \<and> w_pos w = fst (u_split_sentences structure) ! s ! i"
proof -
  let ?tags = "fst (u_split_sentences structure)"
  let ?f = "\<lambda>p. find (\<lambda>subject. w_pos subject = p) (u_sort_subjects cfg subjects)"
  have s: "s < length ?tags" using assms(1) by (simp add: assigned_slots)
  have i: "i < length (?tags ! s)" using assms(2) s by (simp add: assigned_slots)
  have f: "?f (?tags ! s ! i) = Some w"
    using assms(3) s i by (simp add: assigned_slots)
  then have "w \<in> set (u_sort_subjects cfg subjects)" and "w_pos w = ?tags ! s ! i"
    by (auto simp: find_Some_iff)
  with f sort_subjects_subset[of cfg subjects] show ?thesis by auto
qed

text \<open>
  C6, as stated, fails: \<open>_assign_subjects\<close> does not use a subject up. For the skeleton
  \<open>[NOUN, EOS, NOUN, EOS]\<close> and the single subject \<open>cat\<close>, the subject is placed into both
  sentences.
\<close>

theorem subject_in_two_sentences:
  "fst (assigned_board example_config [NOUN, EOS, NOUN, EOS] [cat]) = [[Some cat], [Some cat]]
   \<and> sentences_holding cat [[Some cat], [Some cat]] = 2"
  by code_simp

text \<open>
  C6, amended: a word that stands in a slot after the assignment phase is the first subject,
  in priority order, whose tag is the tag of the slot; it is one of the subjects and has the
  slot's tag. A placement does not use the subject up, so the same subject may serve
  several sentences.
\<close>

theorem assigned_slot_first_match:
  assumes "s < length (fst (assigned_board cfg structure subjects))"
    and "i < length (fst (assigned_board cfg structure subjects) ! s)"
    and "fst (assigned_board cfg structure subjects) ! s ! i = Some w"
  shows "find (\<lambda>subject. w_pos subject = fst (u_split_sentences structure) ! s ! i)
           (u_sort_subjects cfg subjects) = Some w
     \<and> w \<in> set subjects \<and> w_pos w = fst (u_split_sentences structure) ! s ! i"
  using assms by (rule assigned_slot_find)

theorem assigned_slot_first_match_witness:
  "1 < length (fst (assigned_board example_config [NOUN, EOS, VERB, NOUN, EOS] [sat, mat, cat]))
   \<and> 1 < length (fst (assigned_board example_config [NOUN, EOS, VERB, NOUN, EOS] [sat, mat, cat]) ! 1)
   \<and> fst (assigned_board example_config [NOUN, EOS, VERB, NOUN, EOS] [sat, mat, cat]) ! 1 ! 1 = Some mat
   \<and> find (\<lambda>subject. w_pos subject = fst (u_split_sentences [NOUN, EOS, VERB, NOUN, EOS]) ! 1 ! 1)
        (u_sort_subjects example_config [sat, mat, cat]) = Some mat
   \<and> mat \<in> set [sat, mat, cat]
   \<and> w_pos mat = fst (u_split_sentences [NOUN, EOS, VERB, NOUN, EOS]) ! 1 ! 1"
proof -
  have h1: "1 < length (fst (assigned_board example_config [NOUN, EOS, VERB, NOUN, EOS] [sat, mat, cat]))"
    by code_simp
  have h2: "1 < length (fst (assigned_board example_config [NOUN, EOS, VERB, NOUN, EOS] [sat, mat, cat]) ! 1)"
    by code_simp
  have h3: "fst (assigned_board example_config [NOUN, EOS, VERB, NOUN, EOS] [sat, mat, cat]) ! 1 ! 1 = Some mat"
    by code_simp
  from assigned_slot_first_match [OF h1 h2 h3] h1 h2 h3 show ?thesis by blast
qed

section \<open>Properties of the projection\<close>





section \<open>Properties of the fill loop\<close>

lemma generate_words_loop_passes:
  "old_work_left = u_work_remaining (fst st) \<Longrightarrow>
   passes < snd (u_generate_words_loop cfg choice db structs st old_work_left passes)
   \<and> snd (u_generate_words_loop cfg choice db structs st old_work_left passes)
       \<le> passes + max old_work_left 1"
proof (induction cfg choice db structs st old_work_left passes rule: u_generate_words_loop.induct)
  case (1 cfg choice db structs st old_work_left passes)
  show ?case
  proof (cases "sentences_loop cfg choice db structs st [0..<length (fst st)]")
    case (Inl e)
    then show ?thesis by (simp add: u_generate_words_loop.simps[of cfg choice db structs st])
  next
    case (Inr st')
    have le: "u_work_remaining (fst st') \<le> old_work_left"
      using sentences_loop_work[OF Inr] "1.prems" by simp
    show ?thesis
    proof (cases "old_work_left = u_work_remaining (fst st') \<or> u_work_remaining (fst st') = 0")
      case True
      then show ?thesis using Inr
        by (auto simp: u_generate_words_loop.simps[of cfg choice db structs st] Let_def)
    next
      case False
      then have ih: "passes + 1 < snd (u_generate_words_loop cfg choice db structs st' (u_work_remaining (fst st')) (passes + 1))
        \<and> snd (u_generate_words_loop cfg choice db structs st' (u_work_remaining (fst st')) (passes + 1))
            \<le> passes + 1 + max (u_work_remaining (fst st')) 1"
        using "1.IH"[OF Inr refl _ _ refl] by simp
      have eq: "u_generate_words_loop cfg choice db structs st old_work_left passes
          = u_generate_words_loop cfg choice db structs st' (u_work_remaining (fst st')) (passes + 1)"
        using Inr False by (simp add: u_generate_words_loop.simps[of cfg choice db structs st] Let_def)
      show ?thesis using ih le False unfolding eq by auto
    qed
  qed
qed

lemma generate_words_loop_filled:
  "fst (u_generate_words_loop cfg choice db structs st old_work_left passes) = Inr (True, b)
     \<Longrightarrow> u_work_remaining b = 0"
proof (induction cfg choice db structs st old_work_left passes rule: u_generate_words_loop.induct)
  case (1 cfg choice db structs st old_work_left passes)
  show ?case
  proof (cases "sentences_loop cfg choice db structs st [0..<length (fst st)]")
    case (Inl e)
    then show ?thesis using "1.prems"
      by (simp add: u_generate_words_loop.simps[of cfg choice db structs st])
  next
    case (Inr st')
    show ?thesis
    proof (cases "old_work_left = u_work_remaining (fst st') \<or> u_work_remaining (fst st') = 0")
      case True
      then show ?thesis using Inr "1.prems"
        by (auto simp: u_generate_words_loop.simps[of cfg choice db structs st] Let_def split: if_splits)
    next
      case False
      have eq: "u_generate_words_loop cfg choice db structs st old_work_left passes
          = u_generate_words_loop cfg choice db structs st' (u_work_remaining (fst st')) (passes + 1)"
        using Inr False by (simp add: u_generate_words_loop.simps[of cfg choice db structs st] Let_def)
      show ?thesis using "1.IH"[OF Inr refl _ _ ] False "1.prems" unfolding eq by simp
    qed
  qed
qed

lemma generate_words_loop_pass:
  assumes "sentences_loop cfg choice db structs st [0..<length (fst st)] = Inr st'"
  shows "u_work_remaining (fst st') < u_work_remaining (fst st)
     \<or> u_generate_words_loop cfg choice db structs st (u_work_remaining (fst st)) passes
          = (Inr (False, fst st'), passes + 1)"
proof (cases "u_work_remaining (fst st') = u_work_remaining (fst st)")
  case True
  then show ?thesis using assms
    by (simp add: u_generate_words_loop.simps[of cfg choice db structs st] Let_def)
next
  case False
  with sentences_loop_work[OF assms] show ?thesis by simp
qed

text \<open>
  C4, as stated, fails in its bound: the loop tests for progress only after a pass, so it
  makes one pass even when no slot is blank. For the skeleton \<open>[NOUN, EOS]\<close> and the subject
  \<open>cat\<close> the assignment fills the only slot, \<open>W0\<close> is \<open>0\<close>, and \<open>_generate_words\<close> makes one
  pass (and reports no progress).
\<close>

theorem one_pass_without_blank:
  "u_work_remaining (fst (assigned_board example_config [NOUN, EOS] [cat])) = 0
   \<and> u_generate_words example_config (np_random_choice (\<lambda>_. 0)) example_db
        (fst (u_split_sentences [NOUN, EOS])) (fst (assigned_board example_config [NOUN, EOS] [cat]))
       = (Inr (False, [[Some cat]]), 1)
   \<and> generate example_config (np_random_choice (\<lambda>_. 0)) example_db [NOUN, EOS] [cat] = Inr None"
  by code_simp

text \<open>
  C4, amended: \<open>generate\<close> terminates (the model is a total function). With \<open>W0\<close> the
  number of blank slots after the assignment, the fill loop makes at least one pass and at
  most \<open>max W0 1\<close> passes. No pass over the sentences adds a blank slot; a pass either
  removes one or makes \<open>_generate_words\<close> return \<open>False\<close>, so that \<open>generate\<close> returns
  \<open>None\<close>; a pass may also end the call by raising.
  When \<open>_generate_words\<close> returns \<open>True\<close>, and so when \<open>generate\<close> returns a board, no slot of
  the board is blank.
\<close>

theorem generate_bounded:
  "(let structs = fst (u_split_sentences structure);
        gens = fst (assigned_board cfg structure subjects);
        W0 = u_work_remaining gens;
        r = u_generate_words cfg choice db structs gens
    in 1 \<le> snd r \<and> snd r \<le> max W0 1
       \<and> (\<forall>b. fst r = Inr (True, b) \<longrightarrow> u_work_remaining b = 0)
       \<and> (\<forall>b. generate cfg choice db structure subjects = Inr (Some b) \<longrightarrow> u_work_remaining b = 0))
   \<and> (\<forall>st idxs st'. sentences_loop cfg choice db structs0 st idxs = Inr st'
         \<longrightarrow> u_work_remaining (fst st') \<le> u_work_remaining (fst st))
   \<and> (\<forall>st st' passes. sentences_loop cfg choice db structs0 st [0..<length (fst st)] = Inr st'
         \<longrightarrow> u_work_remaining (fst st') < u_work_remaining (fst st)
             \<or> u_generate_words_loop cfg choice db structs0 st (u_work_remaining (fst st)) passes
                  = (Inr (False, fst st'), passes + 1))"
proof -
  define gens where "gens = fst (assigned_board cfg structure subjects)"
  define structs where "structs = fst (u_split_sentences structure)"
  define r where "r = u_generate_words cfg choice db structs gens"
  have p: "0 < snd r \<and> snd r \<le> 0 + max (u_work_remaining gens) 1"
    unfolding r_def u_generate_words_def
    by (rule generate_words_loop_passes) simp
  have f: "u_work_remaining b = 0" if "fst r = Inr (True, b)" for b
    using that unfolding r_def u_generate_words_def by (rule generate_words_loop_filled)
  have g: "u_work_remaining b = 0" if "generate cfg choice db structure subjects = Inr (Some b)" for b
  proof -
    from that have "fst r = Inr (True, b)"
      unfolding generate_def r_def gens_def structs_def
      by (auto split: prod.splits if_splits sum.splits)
    then show ?thesis by (rule f)
  qed
  have first: "1 \<le> snd r \<and> snd r \<le> max (u_work_remaining gens) 1
       \<and> (\<forall>b. fst r = Inr (True, b) \<longrightarrow> u_work_remaining b = 0)
       \<and> (\<forall>b. generate cfg choice db structure subjects = Inr (Some b) \<longrightarrow> u_work_remaining b = 0)"
    using p f g by auto
  have second: "\<forall>st idxs st'. sentences_loop cfg choice db structs0 st idxs = Inr st'
         \<longrightarrow> u_work_remaining (fst st') \<le> u_work_remaining (fst st)"
    using sentences_loop_work by blast
  have third: "\<forall>st st' passes. sentences_loop cfg choice db structs0 st [0..<length (fst st)] = Inr st'
         \<longrightarrow> u_work_remaining (fst st') < u_work_remaining (fst st)
             \<or> u_generate_words_loop cfg choice db structs0 st (u_work_remaining (fst st)) passes
                  = (Inr (False, fst st'), passes + 1)"
    using generate_words_loop_pass by blast
  show ?thesis
    unfolding Let_def gens_def[symmetric] structs_def[symmetric] r_def[symmetric]
    using first second third by blast
qed

theorem generate_bounded_witness:
  "u_work_remaining (fst (assigned_board example_config [NOUN, VERB, NOUN, EOS] [sat])) = 2
   \<and> u_generate_words example_config (np_random_choice (\<lambda>_. 1 / 2)) example_db
        (fst (u_split_sentences [NOUN, VERB, NOUN, EOS]))
        (fst (assigned_board example_config [NOUN, VERB, NOUN, EOS] [sat]))
       = (Inr (True, [[Some cat, Some sat, Some mat]]), 1)
   \<and> generate example_config (np_random_choice (\<lambda>_. 1 / 2)) example_db [NOUN, VERB, NOUN, EOS] [sat]
       = Inr (Some [[Some cat, Some sat, Some mat]])
   \<and> sentences_loop example_config (np_random_choice (\<lambda>_. 1 / 2)) example_db [[NOUN, VERB, NOUN]]
        ([[None, Some sat, None]], 0) [0] = Inr ([[Some cat, Some sat, Some mat]], 2)
   \<and> u_work_remaining [[Some cat, Some sat, Some mat]] = 0"
proof -
  have a: "u_work_remaining (fst (assigned_board example_config [NOUN, VERB, NOUN, EOS] [sat])) = 2"
    by code_simp
  have b: "u_generate_words example_config (np_random_choice (\<lambda>_. 1 / 2)) example_db
        (fst (u_split_sentences [NOUN, VERB, NOUN, EOS]))
        (fst (assigned_board example_config [NOUN, VERB, NOUN, EOS] [sat]))
       = (Inr (True, [[Some cat, Some sat, Some mat]]), 1)"
    by code_simp
  have c: "generate example_config (np_random_choice (\<lambda>_. 1 / 2)) example_db [NOUN, VERB, NOUN, EOS] [sat]
       = Inr (Some [[Some cat, Some sat, Some mat]])"
    by code_simp
  have d: "sentences_loop example_config (np_random_choice (\<lambda>_. 1 / 2)) example_db [[NOUN, VERB, NOUN]]
        ([[None, Some sat, None]], 0) [0] = Inr ([[Some cat, Some sat, Some mat]], 2)"
    by code_simp
  from generate_bounded [of "[NOUN, VERB, NOUN, EOS]" example_config "[sat]"
         "np_random_choice (\<lambda>_. 1 / 2)" example_db "[[NOUN, VERB, NOUN]]"]
  have "u_work_remaining [[Some cat, Some sat, Some mat]] = 0"
    unfolding Let_def c by blast
  with a b c d show ?thesis by blast
qed

lemma select_neighbors_key:
  assumes "n \<in> set (select_neighbors dicts a p)"
  shows "\<exists>v ds. (n_text n, (p, v, ds)) \<in> set (dicts (neighbors a))"
proof -
  from assms obtain key where g: "get_neighbor (dicts (neighbors a)) key = Some n" and p: "n_pos n = p"
    by (auto simp: select_neighbors_def Let_def List.map_filter_def)
  from g obtain q v ds where m: "map_of (dicts (neighbors a)) key = Some (q, v, ds)"
    and n: "n = \<lparr>n_text = key, n_pos = q, n_values = v, n_dist = ds\<rparr>"
    by (auto simp: get_neighbor_def split: option.splits)
  from m have "(key, (q, v, ds)) \<in> set (dicts (neighbors a))" by (rule map_of_SomeD)
  with n p show ?thesis by (cases v) auto
qed

lemma project_anchors_keys:
  "project_anchors cfg dicts sentence blank_pos idxs = Inr projections \<Longrightarrow>
   key \<in> set (concat (map keys projections)) \<Longrightarrow>
   \<exists>j a v ds. j < length sentence \<and> sentence ! j = Some a \<and> (key, (blank_pos, v, ds)) \<in> set (dicts (neighbors a))"
proof (induction cfg dicts sentence blank_pos idxs arbitrary: projections rule: project_anchors.induct)
  case (1 cfg dicts sentence blank_pos)
  then show ?case by simp
next
  case (2 cfg dicts sentence blank_pos word_idx rest)
  from "2.prems"(1) obtain a ps where
    r: "word_idx < length sentence" and a: "sentence ! word_idx = Some a"
    and rest: "project_anchors cfg dicts sentence blank_pos rest = Inr ps"
    and pr: "projections = project cfg dicts a (int word_idx) (length sentence) blank_pos # ps"
    by (auto split: if_splits option.splits sum.splits)
  from "2.prems"(2) pr consider
    (here) "key \<in> set (keys (project cfg dicts a (int word_idx) (length sentence) blank_pos))"
    | (there) "key \<in> set (concat (map keys ps))" by auto
  then show ?case
  proof cases
    case here
    then obtain n where "n \<in> set (select_neighbors dicts a blank_pos)" and "key = n_text n"
      by (auto simp: project_def Let_def)
    with select_neighbors_key[of n dicts a blank_pos] r a show ?thesis by blast
  next
    case there
    from "2.IH"[OF _ a rest there] r show ?thesis by simp
  qed
qed

lemma handle_projections_ok:
  assumes h: "handle_projections cfg choice db structs si (s, calls) (blank, proj) = Inr (s', calls')"
    and ok: "slots_ok db (structs ! si) s"
    and sc: "\<forall>t w. select_db db t = Some w \<longrightarrow> pos_consistent db w"
  shows "slots_ok db (structs ! si) s'"
proof (cases "s' = s")
  case True
  with ok show ?thesis by simp
next
  case False
  from h False obtain b projections idx where
    b: "b < length (structs ! si)" "b < length s"
    and pa: "project_anchors cfg (heap db) s (structs ! si ! b) proj = Inr projections"
    and idx: "idx < length (keys (concat_collection projections))"
    and s': "s' = s[b := select_db db (keys (concat_collection projections) ! idx)]"
    by (auto simp: handle_projections_def Let_def split: option.splits if_splits sum.splits)
  let ?key = "keys (concat_collection projections) ! idx"
  have "?key \<in> set (concat (map keys projections))"
    using idx nth_mem[of idx "concat (map keys projections)"] by (simp add: concat_collection_def)
  from project_anchors_keys[OF pa this] obtain j a v ds where
    j: "j < length s" "s ! j = Some a" and mem: "(?key, (structs ! si ! b, v, ds)) \<in> set (heap db (neighbors a))"
    by blast
  from ok j have "pos_consistent db a" by (simp add: slots_ok_def)
  with mem have sel: "\<And>w. select_db db ?key = Some w \<Longrightarrow> w_pos w = structs ! si ! b"
    by (fastforce simp: pos_consistent_def)
  show ?thesis
    unfolding slots_ok_def s'
  proof (intro conjI allI impI)
    show "length (s[b := select_db db ?key]) = length (structs ! si)"
      using ok by (simp add: slots_ok_def)
  next
    fix i w assume i: "i < length (s[b := select_db db ?key])" and w: "s[b := select_db db ?key] ! i = Some w"
    show "w_pos w = structs ! si ! i"
    proof (cases "i = b")
      case True
      with w b sel show ?thesis by simp
    next
      case False
      with w i ok show ?thesis by (simp add: slots_ok_def)
    qed
  next
    fix i w assume i: "i < length (s[b := select_db db ?key])" and w: "s[b := select_db db ?key] ! i = Some w"
    show "pos_consistent db w"
    proof (cases "i = b")
      case True
      with w b sc show ?thesis by simp
    next
      case False
      with w i ok show ?thesis by (simp add: slots_ok_def)
    qed
  qed
qed

lemma sentence_pass_ok:
  assumes "sentence_pass cfg choice db structs si (s, calls) = Inr (s', calls')"
    and "slots_ok db (structs ! si) s"
    and "\<forall>t w. select_db db t = Some w \<longrightarrow> pos_consistent db w"
  shows "slots_ok db (structs ! si) s'"
proof -
  obtain s1 c1 where h1: "handle_projections cfg choice db structs si (s, calls)
             (sweep cfg (enumerate 0 s) None) = Inr (s1, c1)"
    and h2: "handle_projections cfg choice db structs si (s1, c1)
             (sweep cfg (rev (enumerate 0 s1)) None) = Inr (s', calls')"
    using assms(1) by (auto simp: sentence_pass_def split: sum.splits)
  obtain bl pr where sw1: "sweep cfg (enumerate 0 s) None = (bl, pr)" by (cases "sweep cfg (enumerate 0 s) None")
  obtain bl2 pr2 where sw2: "sweep cfg (rev (enumerate 0 s1)) None = (bl2, pr2)"
    by (cases "sweep cfg (rev (enumerate 0 s1)) None")
  have "slots_ok db (structs ! si) s1"
    using handle_projections_ok[OF h1[unfolded sw1] assms(2,3)] .
  from handle_projections_ok[OF h2[unfolded sw2] this assms(3)] show ?thesis .
qed

lemma sentences_loop_ok:
  "sentences_loop cfg choice db structs st idxs = Inr st' \<Longrightarrow>
   length (fst st) = length structs \<Longrightarrow>
   \<forall>si < length structs. slots_ok db (structs ! si) (fst st ! si) \<Longrightarrow>
   \<forall>si \<in> set idxs. si < length structs \<Longrightarrow>
   \<forall>t w. select_db db t = Some w \<longrightarrow> pos_consistent db w \<Longrightarrow>
   length (fst st') = length structs \<and> (\<forall>si < length structs. slots_ok db (structs ! si) (fst st' ! si))"
proof (induction cfg choice db structs st idxs rule: sentences_loop.induct)
  case (1 cfg choice db sentence_structures st)
  then show ?case by simp
next
  case (2 cfg choice db structs generations calls sentence_idx rest)
  from "2.prems"(1) obtain s c where
    sp: "sentence_pass cfg choice db structs sentence_idx (generations ! sentence_idx, calls) = Inr (s, c)"
    and rest: "sentences_loop cfg choice db structs (generations[sentence_idx := s], c) rest = Inr st'"
    by (auto split: sum.splits)
  have si: "sentence_idx < length structs" using "2.prems"(4) by simp
  have "slots_ok db (structs ! sentence_idx) (generations ! sentence_idx)"
    using "2.prems"(3) si by simp
  from sentence_pass_ok[OF sp this "2.prems"(5)] have ok: "slots_ok db (structs ! sentence_idx) s" .
  have all: "\<forall>k < length structs. slots_ok db (structs ! k) (fst (generations[sentence_idx := s], c) ! k)"
    using "2.prems"(2,3) ok si by (auto simp: nth_list_update)
  show ?case
    using "2.IH"[OF sp refl rest _ all _ "2.prems"(5)] "2.prems"(2,4) by simp
qed

lemma generate_words_loop_ok:
  "fst (u_generate_words_loop cfg choice db structs st old_work_left passes) = Inr (flag, b) \<Longrightarrow>
   length (fst st) = length structs \<Longrightarrow>
   \<forall>si < length structs. slots_ok db (structs ! si) (fst st ! si) \<Longrightarrow>
   \<forall>t w. select_db db t = Some w \<longrightarrow> pos_consistent db w \<Longrightarrow>
   length b = length structs \<and> (\<forall>si < length structs. slots_ok db (structs ! si) (b ! si))"
proof (induction cfg choice db structs st old_work_left passes rule: u_generate_words_loop.induct)
  case (1 cfg choice db structs st old_work_left passes)
  show ?case
  proof (cases "sentences_loop cfg choice db structs st [0..<length (fst st)]")
    case (Inl e)
    then show ?thesis using "1.prems"(1)
      by (simp add: u_generate_words_loop.simps[of cfg choice db structs st])
  next
    case (Inr st')
    have inv: "length (fst st') = length structs \<and> (\<forall>si < length structs. slots_ok db (structs ! si) (fst st' ! si))"
      using sentences_loop_ok[OF Inr "1.prems"(2,3) _ "1.prems"(4)] "1.prems"(2) by simp
    show ?thesis
    proof (cases "old_work_left = u_work_remaining (fst st') \<or> u_work_remaining (fst st') = 0")
      case True
      then have "b = fst st'" using Inr "1.prems"(1)
        by (auto simp: u_generate_words_loop.simps[of cfg choice db structs st] Let_def split: if_splits)
      with inv show ?thesis by simp
    next
      case False
      have eq: "u_generate_words_loop cfg choice db structs st old_work_left passes
          = u_generate_words_loop cfg choice db structs st' (u_work_remaining (fst st')) (passes + 1)"
        using Inr False by (simp add: u_generate_words_loop.simps[of cfg choice db structs st] Let_def)
      show ?thesis
        using "1.IH"[OF Inr refl _ _ "1.prems"(1)[unfolded eq]] False inv "1.prems"(4) by simp
    qed
  qed
qed

lemma work_zero_filled:
  "u_work_remaining b = 0 \<Longrightarrow> s < length b \<Longrightarrow> i < length (b ! s) \<Longrightarrow> \<exists>w. b ! s ! i = Some w"
proof -
  assume w: "u_work_remaining b = 0" and s: "s < length b" and i: "i < length (b ! s)"
  from w s have "filter (\<lambda>word. word = None) (b ! s) = []"
    by (auto simp: u_work_remaining_def)
  then have "b ! s ! i \<noteq> None"
    using i by (auto simp: filter_empty_conv)
  then show ?thesis by auto
qed

lemma assigned_board_ok:
  assumes "\<forall>w \<in> set subjects. pos_consistent db w" and "si < length (fst (u_split_sentences structure))"
  shows "slots_ok db (fst (u_split_sentences structure) ! si) (fst (assigned_board cfg structure subjects) ! si)"
  unfolding slots_ok_def
proof (intro conjI allI impI)
  show "length (fst (assigned_board cfg structure subjects) ! si) = length (fst (u_split_sentences structure) ! si)"
    using assms(2) by (simp add: assigned_slots)
next
  fix i w
  assume i: "i < length (fst (assigned_board cfg structure subjects) ! si)"
    and w: "fst (assigned_board cfg structure subjects) ! si ! i = Some w"
  have "si < length (fst (assigned_board cfg structure subjects))"
    using assms(2) by (simp add: assigned_slots)
  from assigned_slot_find[OF this i w]
  show "w_pos w = fst (u_split_sentences structure) ! si ! i" and "pos_consistent db w"
    using assms(1) by auto
qed

lemma getnode_loop_payload:
  "u_getnode_loop nd t = Some nd' \<Longrightarrow> payload nd' = Some pl \<Longrightarrow> pl \<in> set (payloads nd)"
proof (induction nd t rule: u_getnode_loop.induct)
  case (1 nd)
  then show ?case by (cases nd) auto
next
  case (2 nd c cs)
  from "2.prems"(1) obtain ch where m: "map_of (children nd) (lower c) = Some ch"
    and r: "u_getnode_loop ch cs = Some nd'"
    by (auto split: option.splits)
  from "2.IH"[OF m r "2.prems"(2)] have "pl \<in> set (payloads ch)" .
  moreover from m have "(lower c, ch) \<in> set (children nd)" by (rule map_of_SomeD)
  ultimately show ?case by (cases nd) force
qed

lemma select_db_payload:
  "select_db db t = Some w \<Longrightarrow> (w_text w, w_pos w, neighbors w) \<in> set (payloads (u_trie db))"
proof -
  assume a: "select_db db t = Some w"
  then obtain nd where g: "u_getnode_loop (u_trie db) t = Some nd"
    and p: "payload nd = Some (w_text w, w_pos w, neighbors w)"
    by (auto simp: select_db_def u_select_def u_getnode_def word_from_db_format_def
             split: option.splits if_splits)
  from getnode_loop_payload[OF g p] show ?thesis .
qed

lemma example_db_consistent: "store_consistent example_db [sat]"
proof -
  have c: "pos_consistent example_db cat" by code_simp
  have s: "pos_consistent example_db sat" by code_simp
  have m: "pos_consistent example_db mat" by code_simp
  have p: "payloads (u_trie example_db) = [(''cat'', NOUN, 0), (''sat'', VERB, 1), (''mat'', NOUN, 2)]"
    by code_simp
  have "pos_consistent example_db w" if "select_db example_db t = Some w" for t w
  proof -
    from select_db_payload[OF that] p have "w = cat \<or> w = sat \<or> w = mat"
      by (cases w) (auto simp: cat_def sat_def mat_def)
    with c s m show ?thesis by blast
  qed
  with s show ?thesis by (simp add: store_consistent_def)
qed

text \<open>
  C5, as stated, fails: a blank slot is filled with the store's word for the key of a
  neighbor record, and it is the record whose tag is compared with the slot, not the word.
  In the store trained on \<open>run far\<close> (\<open>run\<close> a noun) and \<open>cat run\<close> (\<open>run\<close> a verb), the
  word \<open>run\<close> is a noun and the record of \<open>run\<close> under \<open>cat\<close> is a verb; for the skeleton
  \<open>[NOUN, VERB, EOS]\<close> and the subject \<open>cat\<close>, \<open>generate\<close> returns \<open>cat run\<close> with the noun
  \<open>run\<close> in the slot of the verb.
\<close>

theorem generated_word_of_other_pos:
  "select_db clash_db ''cat'' = Some \<lparr>w_text = ''cat'', w_pos = NOUN, neighbors = 2\<rparr>
   \<and> generate example_config (np_random_choice (\<lambda>_. 0)) clash_db [NOUN, VERB, EOS]
         [\<lparr>w_text = ''cat'', w_pos = NOUN, neighbors = 2\<rparr>]
       = Inr (Some [[Some \<lparr>w_text = ''cat'', w_pos = NOUN, neighbors = 2\<rparr>,
                     Some \<lparr>w_text = ''run'', w_pos = NOUN, neighbors = 0\<rparr>]])
   \<and> fst (u_split_sentences [NOUN, VERB, EOS]) ! 0 ! 1 = VERB
   \<and> w_pos \<lparr>w_text = ''run'', w_pos = NOUN, neighbors = 0\<rparr> \<noteq> VERB"
  by code_simp

text \<open>
  C5, amended: when the store is consistent for the subjects (every neighbor record of a
  subject or of a word of the store carries the tag of the store's word for its key), a
  board that \<open>generate\<close> returns has the shape of the skeleton's sentences, and every slot
  holds a word whose tag is the tag of the slot.
\<close>

theorem generated_pos_matches:
  assumes "store_consistent db subjects"
    and "generate cfg choice db structure subjects = Inr (Some b)"
  shows "length b = length (fst (u_split_sentences structure))
    \<and> (\<forall>s < length b. length (b ! s) = length (fst (u_split_sentences structure) ! s)
          \<and> (\<forall>i < length (b ! s). \<exists>w. b ! s ! i = Some w
                 \<and> w_pos w = fst (u_split_sentences structure) ! s ! i))"
proof -
  let ?structs = "fst (u_split_sentences structure)"
  let ?gens = "fst (assigned_board cfg structure subjects)"
  have subj: "\<forall>w \<in> set subjects. pos_consistent db w"
    and sel: "\<forall>t w. select_db db t = Some w \<longrightarrow> pos_consistent db w"
    using assms(1) by (auto simp: store_consistent_def)
  from assms(2) have run: "fst (u_generate_words_loop cfg choice db ?structs (?gens, 0) (u_work_remaining ?gens) 0)
      = Inr (True, b)"
    unfolding generate_def u_generate_words_def
    by (auto split: prod.splits if_splits sum.splits)
  have len: "length (fst (?gens, 0 :: nat)) = length ?structs"
    by (simp add: assigned_slots)
  have init: "\<forall>si < length ?structs. slots_ok db (?structs ! si) (fst (?gens, 0 :: nat) ! si)"
    using assigned_board_ok[OF subj] by simp
  from generate_words_loop_ok[OF run len init sel]
  have lb: "length b = length ?structs" and ok: "\<forall>si < length ?structs. slots_ok db (?structs ! si) (b ! si)"
    by auto
  have w0: "u_work_remaining b = 0" using run by (rule generate_words_loop_filled)
  show ?thesis
  proof (intro conjI allI impI)
    show "length b = length ?structs" by (rule lb)
  next
    fix s assume "s < length b"
    with ok lb show "length (b ! s) = length (?structs ! s)" by (simp add: slots_ok_def)
  next
    fix s i assume s: "s < length b" and i: "i < length (b ! s)"
    from work_zero_filled[OF w0 s i] obtain w where w: "b ! s ! i = Some w" by blast
    from ok lb s have "slots_ok db (?structs ! s) (b ! s)" by simp
    with i w have "w_pos w = ?structs ! s ! i" by (simp add: slots_ok_def)
    with w show "\<exists>w. b ! s ! i = Some w \<and> w_pos w = ?structs ! s ! i" by blast
  qed
qed

theorem generated_pos_matches_witness:
  "store_consistent example_db [sat]
   \<and> generate example_config (np_random_choice (\<lambda>_. 1 / 2)) example_db [NOUN, VERB, NOUN, EOS] [sat]
       = Inr (Some [[Some cat, Some sat, Some mat]])
   \<and> fst (u_split_sentences [NOUN, VERB, NOUN, EOS]) = [[NOUN, VERB, NOUN]]
   \<and> map (map (map_option w_pos)) [[Some cat, Some sat, Some mat]] = [[Some NOUN, Some VERB, Some NOUN]]
   \<and> (\<exists>w. [[Some cat, Some sat, Some mat]] ! 0 ! 2 = Some w
          \<and> w_pos w = fst (u_split_sentences [NOUN, VERB, NOUN, EOS]) ! 0 ! 2)"
proof -
  have g: "generate example_config (np_random_choice (\<lambda>_. 1 / 2)) example_db [NOUN, VERB, NOUN, EOS] [sat]
       = Inr (Some [[Some cat, Some sat, Some mat]])"
    by code_simp
  have sp: "fst (u_split_sentences [NOUN, VERB, NOUN, EOS]) = [[NOUN, VERB, NOUN]]" by code_simp
  have ps: "map (map (map_option w_pos)) [[Some cat, Some sat, Some mat]] = [[Some NOUN, Some VERB, Some NOUN]]"
    by code_simp
  have l0: "0 < length [[Some cat, Some sat, Some mat]]" by simp
  have l2: "2 < length ([[Some cat, Some sat, Some mat]] ! 0)" by simp
  note sentence0 = generated_pos_matches [OF example_db_consistent g, THEN conjunct2, rule_format, OF l0]
  from sentence0 [THEN conjunct2, rule_format, OF l2]
  have "\<exists>w. [[Some cat, Some sat, Some mat]] ! 0 ! 2 = Some w
          \<and> w_pos w = fst (u_split_sentences [NOUN, VERB, NOUN, EOS]) ! 0 ! 2" .
  with example_db_consistent g sp ps show ?thesis by blast
qed

section \<open>Properties of the trainer\<close>

lemma ngramify_distance:
  "(a, b, d) \<in> set (ngramify cfg tokens) \<Longrightarrow> d \<noteq> 0 \<and> \<bar>d\<bar> \<le> int (MARKOV_WINDOW_SIZE cfg)"
  by (auto simp: ngramify_def Let_def split: if_splits)

lemma update_set: "x \<in> set (AList.update k v al) \<Longrightarrow> x = (k, v) \<or> x \<in> set al"
  by (induction al) (auto split: if_splits)

lemma heap_update_db [simp]: "heap (fst (update_db db w)) = heap db"
  by (simp add: update_db_def split: prod.splits)

lemma heap_update_db_eq: "update_db db w = (db', r) \<Longrightarrow> heap db' = heap db"
  using heap_update_db[of db w] by simp

lemma heap_insert_db [simp]: "heap (fst (insert_db db w)) = heap db"
  by (simp add: insert_db_def split: prod.splits)

lemma one_hot_add:
  "length ds = n \<Longrightarrow> i < n \<Longrightarrow> map2 (\<lambda>x y. x + y) ds ((replicate n (0::int))[i := 1]) = ds[i := ds ! i + 1]"
  by (rule nth_equalityI) (auto simp: nth_list_update)

lemma one_hot_entries: "x \<in> set ((replicate n (0::int))[i := 1]) \<Longrightarrow> x = 0 \<or> x = 1"
  using set_update_subset_insert[of "replicate n (0::int)" i 1] by auto

lemma sum_list_bump: "i < length ds \<Longrightarrow> sum_list (ds[i := ds ! i + 1]) = sum_list ds + (1::int)"
proof (induction ds arbitrary: i)
  case Nil
  then show ?case by simp
next
  case (Cons a ds)
  then show ?case by (cases i) auto
qed

lemma entry_le_sum: "\<forall>x \<in> set ds. (0::int) \<le> x \<Longrightarrow> x \<in> set ds \<Longrightarrow> x \<le> sum_list ds"
proof (induction ds)
  case Nil
  then show ?case by simp
next
  case (Cons a ds)
  then have "0 \<le> a" "0 \<le> sum_list ds" by (auto intro: sum_list_nonneg)
  with Cons show ?case by auto
qed

lemma wrapped_sum:
  assumes "length ds = length h" and "\<forall>k < length ds. int64 (ds ! k + h ! k)"
  shows "map2 (\<lambda>x y. wrap64 (x + y)) ds h = map2 (\<lambda>x y. x + y) ds h"
  using assms by (intro nth_equalityI) (auto simp: wrap64_id)

lemma bumped_row:
  assumes inv: "neighbor_invariant cfg (p, (c, rt), ds)" and d: "d \<noteq> 0" "\<bar>d\<bar> \<le> int (MARKOV_WINDOW_SIZE cfg)"
    and bound: "c + 1 < 2 ^ 63"
  shows "\<exists>h ds'. distance_one_hot cfg d = Inr h \<and> np_add ds h = Inr ds'
           \<and> neighbor_invariant cfg (p, (c + 1, rt), ds')"
proof -
  let ?K = "MARKOV_WINDOW_SIZE cfg"
  let ?i = "nat (d + int ?K)"
  let ?h = "(replicate (?K * 2 + 1) (0::int))[?i := 1]"
  from inv have len: "length ds = 2 * ?K + 1" and mid: "ds ! ?K = 0"
    and nn: "\<forall>x \<in> set ds. 0 \<le> x" and cnt: "c = sum_list ds"
    by (auto simp: neighbor_invariant_def)
  have i: "?i < 2 * ?K + 1" and iK: "?i \<noteq> ?K" using d by auto
  have h: "distance_one_hot cfg d = Inr ?h"
    using d by (auto simp: distance_one_hot_def one_hot_def)
  have lh: "length ds = length ?h"
    unfolding length_list_update length_replicate using len by simp
  have small: "0 \<le> x \<and> x \<le> c" if "x \<in> set ds" for x
    using that nn entry_le_sum[OF nn that] cnt by simp
  have hot: "x = 0 \<or> x = 1" if "x \<in> set ?h" for x
    using that by (rule one_hot_entries)
  have r1: "int64 x" if "x \<in> set ds" for x
    using small[OF that] bound by (simp add: int64_def)
  have r2: "int64 x" if "x \<in> set ?h" for x
    using hot[OF that] by (auto simp: int64_def)
  have range: "list_all int64 (ds @ ?h)"
    unfolding list_all_iff using r1 r2 by auto
  have sums: "\<forall>k < length ds. int64 (ds ! k + ?h ! k)"
  proof (intro allI impI)
    fix k assume k: "k < length ds"
    then have "ds ! k \<in> set ds" by simp
    from small[OF this] have a: "0 \<le> ds ! k" "ds ! k \<le> c" by simp_all
    from k lh have "?h ! k \<in> set ?h" by (metis nth_mem)
    from hot[OF this] have "?h ! k = 0 \<or> ?h ! k = 1" .
    with a bound show "int64 (ds ! k + ?h ! k)" by (auto simp: int64_def)
  qed
  have "np_add ds ?h = Inr (map2 (\<lambda>x y. wrap64 (x + y)) ds ?h)"
    unfolding np_add_def using range lh by simp
  also have "map2 (\<lambda>x y. wrap64 (x + y)) ds ?h = map2 (\<lambda>x y. x + y) ds ?h"
    using lh sums by (rule wrapped_sum)
  also have "map2 (\<lambda>x y. x + y) ds ?h = ds[?i := ds ! ?i + 1]"
    by (rule one_hot_add) (use len i in simp_all)
  finally have a: "np_add ds ?h = Inr (ds[?i := ds ! ?i + 1])" .
  have nn': "\<forall>x \<in> set (ds[?i := ds ! ?i + 1]). 0 \<le> x"
  proof
    fix x assume "x \<in> set (ds[?i := ds ! ?i + 1])"
    then have "x = ds ! ?i + 1 \<or> x \<in> set ds"
      using set_update_subset_insert[of ds ?i "ds ! ?i + 1"] by auto
    moreover have "0 \<le> ds ! ?i" using nn i len by simp
    ultimately show "0 \<le> x" using nn by auto
  qed
  have "neighbor_invariant cfg (p, (c + 1, rt), ds[?i := ds ! ?i + 1])"
    unfolding neighbor_invariant_def
    using len mid iK i nn' cnt sum_list_bump[of ?i ds] by simp
  with h a show ?thesis by blast
qed

lemma replicate_zero: "k < n \<Longrightarrow> replicate n (0::int) ! k = 0 \<and> sum_list (replicate n (0::int)) = 0"
  by (simp add: sum_list_replicate)

lemma fresh_row: "neighbor_invariant cfg (p, (0, 0), replicate (MARKOV_WINDOW_SIZE cfg * 2 + 1) 0)"
  using replicate_zero[of "MARKOV_WINDOW_SIZE cfg" "MARKOV_WINDOW_SIZE cfg * 2 + 1"]
  by (simp add: neighbor_invariant_def del: replicate_Suc replicate.simps)

lemma get_neighbor_row:
  "get_neighbor d key = Some n \<Longrightarrow> (key, (n_pos n, n_values n, n_dist n)) \<in> set d \<and> n_text n = key"
  by (auto simp: get_neighbor_def split: option.splits dest: map_of_SomeD)

lemma good_heap_mono: "good_heap cfg m dicts \<Longrightarrow> m \<le> m' \<Longrightarrow> good_heap cfg m' dicts"
  unfolding good_heap_def by fastforce

lemma good_heap_update:
  assumes "good_heap cfg m dicts" and "neighbor_invariant cfg row" and "fst (fst (snd row)) \<le> int m"
  shows "good_heap cfg m (dicts(r := AList.update key row (dicts r)))"
  unfolding good_heap_def
proof (intro allI ballI)
  fix r' x assume x: "x \<in> set ((dicts(r := AList.update key row (dicts r))) r')"
  show "case x of (key, row) \<Rightarrow> neighbor_invariant cfg row \<and> fst (fst (snd row)) \<le> int m"
  proof (cases "r' = r")
    case True
    with x have "x = (key, row) \<or> x \<in> set (dicts r)" by (auto dest: update_set)
    with assms show ?thesis by (auto simp: good_heap_def)
  next
    case False
    with x assms(1) show ?thesis by (auto simp: good_heap_def)
  qed
qed

lemma good_heap_alloc: "good_heap cfg m dicts \<Longrightarrow> good_heap cfg m (dicts(r := []))"
  unfolding good_heap_def by (auto split: if_splits)

lemma learn_step_good:
  assumes g: "good_heap cfg m (heap db)" and d: "d \<noteq> 0" "\<bar>d\<bar> \<le> int (MARKOV_WINDOW_SIZE cfg)"
    and m: "Suc m < 2 ^ 63"
  shows "\<exists>db' cache'. learn_step cfg (db, cache) (a, b, d) = Inr (db', cache')
           \<and> good_heap cfg (Suc m) (heap db')"
proof -
  obtain db1 word where w: "(case cache (fst a) of
                 Some w \<Rightarrow> (db, w)
               | None \<Rightarrow> (case select_db db (fst a) of
                             Some w \<Rightarrow> (db, w)
                           | None \<Rightarrow> word_from_token db a)) = (db1, word)"
    by (cases "(case cache (fst a) of
                 Some w \<Rightarrow> (db, w)
               | None \<Rightarrow> (case select_db db (fst a) of
                             Some w \<Rightarrow> (db, w)
                           | None \<Rightarrow> word_from_token db a))")
  have g1m: "good_heap cfg m (heap db1)"
    using w g good_heap_alloc[OF g, of "fresh db"]
    by (auto simp: word_from_token_def split: option.splits)
  then have g1: "good_heap cfg (Suc m) (heap db1)"
    by (rule good_heap_mono) simp
  have mi: "int (Suc m) < 2 ^ 63"
    using m by (metis of_nat_less_iff of_nat_numeral of_nat_power)
  let ?r = "neighbors word"
  show ?thesis
  proof (cases "get_neighbor (heap db1 ?r) (fst b)")
    case None
    have "(0::int) + 1 < 2 ^ 63" by simp
    from bumped_row[OF fresh_row d this, of "snd b"] obtain h ds' where
      h: "distance_one_hot cfg d = Inr h"
      and a: "np_add (replicate (MARKOV_WINDOW_SIZE cfg * 2 + 1) 0) h = Inr ds'"
      and inv: "neighbor_invariant cfg (snd b, (0 + 1, 0), ds')"
      by blast
    have "fst (fst (snd (snd b, (0 + 1, 0 :: int), ds'))) \<le> int (Suc m)" by simp
    with g1 inv
    have gf: "good_heap cfg (Suc m) ((heap db1)(?r := AList.update (fst b) (snd b, (0 + 1, 0), ds') (heap db1 ?r)))"
      by (rule good_heap_update)
    have nf: "n_text (neighbor_from_token cfg b) = fst b" "n_pos (neighbor_from_token cfg b) = snd b"
      "n_values (neighbor_from_token cfg b) = (0, 0)"
      by (simp_all add: neighbor_from_token_def)
    have nd: "n_dist (neighbor_from_token cfg b) = replicate (MARKOV_WINDOW_SIZE cfg * 2 + 1) 0"
      unfolding neighbor_from_token_def by (rule MarkovNeighbor.select_convs)
    have a': "np_add (n_dist (neighbor_from_token cfg b)) h = Inr ds'"
      unfolding nd by (rule a)
    show ?thesis
      using gf
      by (auto simp: learn_step_def w None h a' nf neighbor_to_db_format_def Let_def
            split: prod.splits dest!: heap_update_db_eq)
  next
    case (Some n)
    from get_neighbor_row[OF Some]
    have row: "(fst b, (n_pos n, n_values n, n_dist n)) \<in> set (heap db1 ?r)" by simp
    from g1m[unfolded good_heap_def]
    have "\<forall>(key, row) \<in> set (heap db1 ?r). neighbor_invariant cfg row \<and> fst (fst (snd row)) \<le> int m"
      by (rule spec)
    from bspec[OF this row]
    have ni: "neighbor_invariant cfg (n_pos n, (fst (n_values n), snd (n_values n)), n_dist n)"
      and c: "fst (n_values n) \<le> int m"
      by simp_all
    from c mi have cb: "fst (n_values n) + 1 < 2 ^ 63" by simp
    from bumped_row[OF ni d cb] obtain h ds' where
      h: "distance_one_hot cfg d = Inr h"
      and a: "np_add (n_dist n) h = Inr ds'"
      and inv: "neighbor_invariant cfg (n_pos n, (fst (n_values n) + 1, snd (n_values n)), ds')"
      by blast
    from c have "fst (fst (snd (n_pos n, (fst (n_values n) + 1, snd (n_values n)), ds'))) \<le> int (Suc m)"
      by simp
    with g1 inv
    have gf: "good_heap cfg (Suc m) ((heap db1)(?r := AList.update (fst b)
                 (n_pos n, (fst (n_values n) + 1, snd (n_values n)), ds') (heap db1 ?r)))"
      by (rule good_heap_update)
    have nt: "n_text n = fst b" using get_neighbor_row[OF Some] by simp
    show ?thesis
      using gf
      by (auto simp: learn_step_def w Some h a nt neighbor_to_db_format_def Let_def
            split: prod.splits dest!: heap_update_db_eq)
  qed
qed

lemma learn_loop_good:
  "good_heap cfg m (heap (fst st)) \<Longrightarrow>
   \<forall>(a, b, d) \<in> set ngrams. d \<noteq> 0 \<and> \<bar>d\<bar> \<le> int (MARKOV_WINDOW_SIZE cfg) \<Longrightarrow>
   m + length ngrams < 2 ^ 63 \<Longrightarrow>
   \<exists>db'. learn_loop cfg st ngrams = Inr db' \<and> good_heap cfg (m + length ngrams) (heap db')"
proof (induction ngrams arbitrary: st m)
  case Nil
  then show ?case by simp
next
  case (Cons ngram ngrams)
  obtain db cache where st: "st = (db, cache)" by (cases st)
  obtain a b d where ng: "ngram = (a, b, d)" by (cases ngram)
  from Cons.prems(2) ng have d: "d \<noteq> 0" "\<bar>d\<bar> \<le> int (MARKOV_WINDOW_SIZE cfg)" by auto
  from Cons.prems(1) st have g0: "good_heap cfg m (heap db)" by simp
  from Cons.prems(3) have m1: "Suc m < 2 ^ 63" and m2: "Suc m + length ngrams < 2 ^ 63" by simp_all
  from learn_step_good[OF g0 d m1, of cache a b] obtain db' cache' where
    s: "learn_step cfg (db, cache) (a, b, d) = Inr (db', cache')" and g: "good_heap cfg (Suc m) (heap db')"
    by blast
  from g have "good_heap cfg (Suc m) (heap (fst (db', cache')))" by simp
  from Cons.IH[OF this _ m2] Cons.prems(2) obtain dbf where
    "learn_loop cfg (db', cache') ngrams = Inr dbf" and "good_heap cfg (Suc m + length ngrams) (heap dbf)" by auto
  with s st ng show ?case by simp
qed

lemma learn_good:
  assumes "good_heap cfg m (heap db)" and "m + length (concat (map (ngramify cfg) doc)) < 2 ^ 63"
  shows "\<exists>db'. learn cfg db doc = Inr db'
           \<and> good_heap cfg (m + length (concat (map (ngramify cfg) doc))) (heap db')"
proof -
  have "\<forall>(a, b, d) \<in> set (concat (map (ngramify cfg) doc)). d \<noteq> 0 \<and> \<bar>d\<bar> \<le> int (MARKOV_WINDOW_SIZE cfg)"
    using ngramify_distance by fastforce
  with assms learn_loop_good[of cfg m "(db, Map.empty)" "concat (map (ngramify cfg) doc)"]
  show ?thesis by (simp add: learn_def)
qed

lemma learn_all_good:
  "good_heap cfg m (heap db) \<Longrightarrow> m + ngram_count cfg docs < 2 ^ 63 \<Longrightarrow>
   \<exists>db'. learn_all cfg db docs = Inr db' \<and> good_heap cfg (m + ngram_count cfg docs) (heap db')"
proof (induction docs arbitrary: db m)
  case Nil
  then show ?case by (simp add: ngram_count_def)
next
  case (Cons doc docs)
  let ?n = "length (concat (map (ngramify cfg) doc))"
  from Cons.prems(2) have b1: "m + ?n < 2 ^ 63" and b2: "m + ?n + ngram_count cfg docs < 2 ^ 63"
    by (simp_all add: ngram_count_def add.assoc)
  from learn_good[OF Cons.prems(1) b1] obtain db1 where
    l: "learn cfg db doc = Inr db1" and g: "good_heap cfg (m + ?n) (heap db1)" by blast
  from Cons.IH[OF g b2] l show ?case by (simp add: ngram_count_def add.assoc)
qed

text \<open>
  The invariant does not hold after every sequence of \<open>learn\<close> calls: the histogram is
  summed in 64 bits. After \<open>2^63\<close> calls with the document \<open>a b\<close> the record of \<open>b\<close> in the
  dictionary of \<open>a\<close> has the count \<open>2^63\<close> and the histogram entry \<open>-2^63\<close>.
\<close>

theorem histogram_wraps_around:
  "learn_all example_config empty_db (replicate (2 ^ 63) repeated_doc) = Inr (repeated_db (2 ^ 63))
   \<and> payloads (u_trie (repeated_db (2 ^ 63))) = [(''a'', NOUN, 0), (''b'', VERB, 1)]
   \<and> heap (repeated_db (2 ^ 63)) 0
       = [(''b'', VERB, (9223372036854775808, 0), [0, 0, 0, - 9223372036854775808, 0])]
   \<and> \<not> neighbor_invariant example_config
         (VERB, (9223372036854775808, 0), [0, 0, 0, - 9223372036854775808, 0])"
proof -
  have "(2 ^ 63 :: nat) = Suc (2 ^ 63 - 1)" by simp
  then have l: "learn_all example_config empty_db (replicate (2 ^ 63) repeated_doc) = Inr (repeated_db (2 ^ 63))"
    using repeated_db_trained[of "2 ^ 63 - 1"] by simp
  have p: "payloads (u_trie (repeated_db (2 ^ 63))) = [(''a'', NOUN, 0), (''b'', VERB, 1)]"
    by (simp add: repeated_db_def)
  have h: "heap (repeated_db (2 ^ 63)) 0
       = [(''b'', VERB, (9223372036854775808, 0), [0, 0, 0, - 9223372036854775808, 0])]"
    by (simp add: repeated_db_def wrap64_def)
  have n: "\<not> neighbor_invariant example_config
         (VERB, (9223372036854775808, 0), [0, 0, 0, - 9223372036854775808, 0])"
    by (simp add: neighbor_invariant_def example_config_def)
  from l p h n show ?thesis by blast
qed

text \<open>
  C3, amended: starting from the empty store, every sequence of \<open>learn\<close> calls that walks
  through fewer than \<open>2^63\<close> n-grams in all runs without raising, and afterwards every
  neighbor record of every payload of the trie has a histogram of length \<open>2K + 1\<close> whose
  middle entry is zero and whose entries are non-negative, and a count equal to the sum of
  the histogram. A sequence of documents stands for each of its prefixes, so the statement
  covers the store after any of the calls.
\<close>

theorem trained_neighbor_invariant:
  "ngram_count cfg docs < 2 ^ 63 \<Longrightarrow>
   \<exists>db. learn_all cfg empty_db docs = Inr db
      \<and> (\<forall>(t, p, r) \<in> set (payloads (u_trie db)).
            \<forall>(key, row) \<in> set (heap db r). neighbor_invariant cfg row)"
proof -
  assume b: "ngram_count cfg docs < 2 ^ 63"
  have "good_heap cfg 0 (heap empty_db)" by (simp add: good_heap_def empty_db_def)
  from learn_all_good[OF this, of docs] b obtain db where
    "learn_all cfg empty_db docs = Inr db" and "good_heap cfg (0 + ngram_count cfg docs) (heap db)"
    by auto
  then show ?thesis by (auto simp: good_heap_def)
qed

theorem trained_neighbor_invariant_witness:
  "ngram_count example_config [example_doc] = 6
   \<and> learn_all example_config empty_db [example_doc] = Inr example_db
   \<and> (''cat'', NOUN, 0) \<in> set (payloads (u_trie example_db))
   \<and> (''sat'', (VERB, (1, 0), [0, 0, 0, 1, 0])) \<in> set (heap example_db 0)
   \<and> neighbor_invariant example_config (VERB, (1, 0), [0, 0, 0, 1, 0])"
proof -
  have c: "ngram_count example_config [example_doc] = 6"
    by (simp add: ngram_count_def example_doc_def example_config_def ngramify_def)
  have l: "learn_all example_config empty_db [example_doc] = Inr example_db"
    by (simp add: example_db_trained)
  have p: "(''cat'', NOUN, 0) \<in> set (payloads (u_trie example_db))"
    by (simp add: example_db_def)
  have h: "(''sat'', (VERB, (1, 0), [0, 0, 0, 1, 0])) \<in> set (heap example_db 0)"
    by (simp add: example_db_def)
  from c have "ngram_count example_config [example_doc] < 2 ^ 63" by simp
  from trained_neighbor_invariant [OF this] l
  have "\<forall>(t, p, r) \<in> set (payloads (u_trie example_db)).
            \<forall>(key, row) \<in> set (heap example_db r). neighbor_invariant example_config row"
    by simp
  with p h have "neighbor_invariant example_config (VERB, (1, 0), [0, 0, 0, 1, 0])" by blast
  with c l p h show ?thesis by blast
qed
end
